theory Spec2Isabelle
  imports Complex_Main "HOL-Library.Word" "HOL-Library.Sublist"
begin

text \<open>
  The formatting helpers (\<open>formatCell\<close>, \<open>fmt\<close>, \<open>fmtPct\<close>) and the search helpers
  (\<open>normalizeText\<close>, \<open>buildSearchKey\<close>, the options of \<open>SearchSelect\<close>) of
  \<open>src/frontend/src/App.jsx\<close>, with the operations of the language that they call
  (strings of UTF-16 code units, IEEE doubles, \<open>String\<close>, \<open>toFixed\<close>), and the
  properties C1 to C10 of them.
\<close>

section \<open>Strings\<close>

text \<open>
  A JavaScript string is a sequence of UTF-16 code units. String literals of the source
  are written \<open>js ''...''\<close>: every ASCII character is the code unit of the same number.
\<close>

type_synonym code_unit = "16 word"
type_synonym jsstring = "code_unit list"

definition js :: "string \<Rightarrow> jsstring" where
  "js s = map of_char s"

text \<open>
  The lower-case mapping of a code unit up to U+00FF: the letters A-Z and the Latin-1
  capitals (U+00D7 being the multiplication sign) move up by 32, and no other code unit
  up to U+00FF changes. It is applied to such code units only.
\<close>

definition lower_latin1 :: "code_unit \<Rightarrow> code_unit" where
  "lower_latin1 c =
     (if (0x41 \<le> c \<and> c \<le> 0x5A) \<or> (0xC0 \<le> c \<and> c \<le> 0xDE \<and> c \<noteq> 0xD7)
      then c + 0x20 else c)"

definition latin1 :: "jsstring \<Rightarrow> bool" where
  "latin1 s = list_all (\<lambda>c. c \<le> 0xFF) s"

text \<open>
  \<open>String.prototype.toLowerCase\<close>. The case table of the engine (the Unicode character
  database) is not part of the repository. On a string of code units up to U+00FF
  lower-casing is the map of \<open>lower_latin1\<close>. On a string with a code unit from U+0100
  on, where lower-casing is neither a map of code units (U+0130 becomes two of them) nor
  free of context (the capital sigma), the result is what the table of the engine gives:
  the parameter \<open>tbl\<close>, of which nothing is assumed.
\<close>

type_synonym case_table = "jsstring \<Rightarrow> jsstring"

definition toLowerCase :: "case_table \<Rightarrow> jsstring \<Rightarrow> jsstring" where
  "toLowerCase tbl s = (if latin1 s then map lower_latin1 s else tbl s)"

text \<open>
  A table for the closed instances below. It lower-cases U+0100, U+0160 and the Kelvin
  sign U+212A as the engine does, and A-Z and the Latin-1 capitals beside them. Most of
  the instances are at strings of ASCII characters, on which no table is consulted.
\<close>

definition sample_unit :: "code_unit \<Rightarrow> code_unit" where
  "sample_unit c =
     (if c = 0x100 then 0x101 else if c = 0x160 then 0x161 else if c = 0x212A then 0x6B
      else lower_latin1 c)"

definition sample_table :: case_table where
  "sample_table s = map sample_unit s"

text \<open>
  The class \<open>\s\<close> of a regular expression, which is also what \<open>trim\<close> removes:
  the WhiteSpace and LineTerminator code points of ECMAScript.
\<close>

definition isWhiteSpace :: "code_unit \<Rightarrow> bool" where
  "isWhiteSpace c =
     (c = 0x9 \<or> c = 0xA \<or> c = 0xB \<or> c = 0xC \<or> c = 0xD \<or> c = 0x20 \<or> c = 0xA0 \<or>
      c = 0x1680 \<or> (0x2000 \<le> c \<and> c \<le> 0x200A) \<or> c = 0x2028 \<or> c = 0x2029 \<or>
      c = 0x202F \<or> c = 0x205F \<or> c = 0x3000 \<or> c = 0xFEFF)"

text \<open>\<open>s.replace(/\s+/g, " ")\<close>: every maximal run of white space becomes one space.\<close>

function replace_ws :: "jsstring \<Rightarrow> jsstring" where
  "replace_ws [] = []"
| "replace_ws (c # cs) =
     (if isWhiteSpace c then 0x20 # replace_ws (dropWhile isWhiteSpace cs)
      else c # replace_ws cs)"
  by pat_completeness auto
termination
  by (relation "measure length") (auto simp: length_dropWhile_le less_Suc_eq_le)

definition trim :: "jsstring \<Rightarrow> jsstring" where
  "trim s = rev (dropWhile isWhiteSpace (rev (dropWhile isWhiteSpace s)))"

text \<open>\<open>s.split(sep)\<close> for a separator of one code unit; \<open>"".split(" ")\<close> is \<open>[""]\<close>.\<close>

fun split :: "code_unit \<Rightarrow> jsstring \<Rightarrow> jsstring list" where
  "split sep [] = [[]]"
| "split sep (c # cs) =
     (if c = sep then [] # split sep cs
      else (case split sep cs of [] \<Rightarrow> [[c]] | w # ws \<Rightarrow> (c # w) # ws))"

text \<open>\<open>parts.join(sep)\<close> on an array of strings.\<close>

fun join :: "jsstring \<Rightarrow> jsstring list \<Rightarrow> jsstring" where
  "join sep [] = []"
| "join sep [x] = x"
| "join sep (x # y # zs) = x @ sep @ join sep (y # zs)"

text \<open>\<open>s.includes(t)\<close>: \<open>t\<close> occurs in \<open>s\<close> as a contiguous substring.\<close>

fun includes_str :: "jsstring \<Rightarrow> jsstring \<Rightarrow> bool" where
  "includes_str [] t = (t = [])"
| "includes_str (c # cs) t = (prefix t (c # cs) \<or> includes_str cs t)"

text \<open>
  The words of a string: its maximal runs of code units that are not white space. A
  word is never empty and holds no white space.
\<close>

fun words_of :: "jsstring \<Rightarrow> jsstring list" where
  "words_of [] = []"
| "words_of (c # cs) =
     (if isWhiteSpace c then words_of cs
      else if cs = [] \<or> isWhiteSpace (hd cs) then [c] # words_of cs
      else (case words_of cs of [] \<Rightarrow> [[c]] | w # ws \<Rightarrow> (c # w) # ws))"

definition word_ok :: "jsstring \<Rightarrow> bool" where
  "word_ok w = (w \<noteq> [] \<and> list_all (\<lambda>c. \<not> isWhiteSpace c) w)"

section \<open>Numbers\<close>

text \<open>
  A Number is an IEEE 754 binary64 value. A finite one is represented by the rational it
  denotes (\<open>is_double\<close> below tells which rationals are doubles; what is proved for all
  rationals holds for them); the sign of zero is not represented, since none of the operations used by the
  formatter (\<open>toFixed\<close>, \<open>String\<close>, \<open>Number.isInteger\<close>, \<open>Math.round\<close>, the product with
  and the quotient by 10000) gives a different string for \<open>-0\<close> than for \<open>+0\<close>.
\<close>

datatype number = NaN | PosInf | NegInf | Fin rat

definition pw :: "nat \<Rightarrow> int \<Rightarrow> rat" where
  "pw b e = (if 0 \<le> e then of_nat b ^ nat e else 1 / of_nat b ^ nat (- e))"

text \<open>
  \<open>floor_log b a\<close> is the integer \<open>e\<close> with \<open>b ^ e \<le> a < b ^ (e + 1)\<close>, for \<open>a > 0\<close>
  and \<open>b \<ge> 2\<close>: counted upwards from 1 when \<open>a \<ge> 1\<close> and downwards otherwise.
\<close>

function log_up :: "nat \<Rightarrow> rat \<Rightarrow> int" where
  "log_up b a = (if 2 \<le> b \<and> of_nat b \<le> a then log_up b (a / of_nat b) + 1 else 0)"
  by pat_completeness auto
termination
proof (relation "measure (\<lambda>(b, a). nat \<lfloor>a\<rfloor>)")
  show "wf (measure (\<lambda>(b, a). nat \<lfloor>a::rat\<rfloor>))" by simp
next
  fix b :: nat and a :: rat
  assume h: "2 \<le> b \<and> of_nat b \<le> a"
  then have b2: "(2::rat) \<le> of_nat b" by simp
  with h have a2: "2 \<le> a" by linarith
  have "a / of_nat b \<le> a / 2" using b2 a2 by (intro frac_le) simp_all
  then have "\<lfloor>a / of_nat b\<rfloor> \<le> \<lfloor>a / 2\<rfloor>" by (rule floor_mono)
  moreover have "\<lfloor>a / 2\<rfloor> < \<lfloor>a\<rfloor>"
  proof -
    have "2 \<le> \<lfloor>a\<rfloor>" using a2 by (simp add: le_floor_iff)
    moreover have "a < of_int \<lfloor>a\<rfloor> + 1" by linarith
    ultimately have "a / 2 < of_int \<lfloor>a\<rfloor>" by simp
    then show ?thesis by (simp add: floor_less_iff)
  qed
  moreover have "0 < \<lfloor>a\<rfloor>" using a2 by linarith
  ultimately show "((b, a / of_nat b), (b, a)) \<in> measure (\<lambda>(b, a). nat \<lfloor>a\<rfloor>)"
    by simp
qed

function log_down :: "nat \<Rightarrow> rat \<Rightarrow> int" where
  "log_down b a = (if 2 \<le> b \<and> 0 < a \<and> a < 1 then log_down b (a * of_nat b) - 1 else 0)"
  by pat_completeness auto
termination
proof (relation "measure (\<lambda>(b, a). nat \<lfloor>1 / a\<rfloor>)")
  show "wf (measure (\<lambda>(b, a). nat \<lfloor>1 / a::rat\<rfloor>))" by simp
next
  fix b :: nat and a :: rat
  assume h: "2 \<le> b \<and> 0 < a \<and> a < 1"
  then have b2: "(2::rat) \<le> of_nat b" by simp
  from h have y1: "1 \<le> 1 / a" by simp
  have "1 / (a * of_nat b) = (1 / a) / of_nat b" by simp
  also have "\<dots> \<le> (1 / a) / 2" using b2 h by (intro frac_le) simp_all
  finally have "\<lfloor>1 / (a * of_nat b)\<rfloor> \<le> \<lfloor>(1 / a) / 2\<rfloor>" by (rule floor_mono)
  moreover have "\<lfloor>(1 / a) / 2\<rfloor> < \<lfloor>1 / a\<rfloor>"
  proof -
    have half: "\<lfloor>y / 2\<rfloor> < \<lfloor>y\<rfloor>" if "1 \<le> y" for y :: rat
    proof -
      have "1 \<le> \<lfloor>y\<rfloor>" using that by (simp add: le_floor_iff)
      then have "(1::rat) \<le> of_int \<lfloor>y\<rfloor>" by simp
      moreover have "y < of_int \<lfloor>y\<rfloor> + 1" by linarith
      ultimately have "y / 2 < of_int \<lfloor>y\<rfloor>" by linarith
      then show ?thesis by (simp only: floor_less_iff)
    qed
    show ?thesis using y1 by (rule half)
  qed
  moreover have "0 < \<lfloor>1 / a\<rfloor>" using y1 by linarith
  ultimately show "((b, a * of_nat b), (b, a)) \<in> measure (\<lambda>(b, a). nat \<lfloor>1 / a\<rfloor>)"
    by simp
qed

declare log_up.simps [simp del] log_down.simps [simp del]

definition floor_log :: "nat \<Rightarrow> rat \<Rightarrow> int" where
  "floor_log b a = (if 1 \<le> a then log_up b a else log_down b a)"

subsection \<open>Rounding a rational to the nearest double\<close>

text \<open>
  Round to nearest, ties to even, with 53 significant bits, the exponent of the least
  bit not below \<open>-1074\<close> (subnormal numbers), and overflow to an infinity from
  \<open>2 ^ 1024\<close> on. This is the rounding of every arithmetic operation of the language.
\<close>

definition round_half_even :: "rat \<Rightarrow> int" where
  "round_half_even a =
     (if a - of_int \<lfloor>a\<rfloor> < 1 / 2 then \<lfloor>a\<rfloor>
      else if 1 / 2 < a - of_int \<lfloor>a\<rfloor> then \<lfloor>a\<rfloor> + 1
      else if even \<lfloor>a\<rfloor> then \<lfloor>a\<rfloor> else \<lfloor>a\<rfloor> + 1)"

definition pack :: "rat \<Rightarrow> rat \<Rightarrow> number" where
  "pack r y = (if pw 2 1024 \<le> y then (if 0 < r then PosInf else NegInf)
               else Fin (if 0 < r then y else - y))"

definition round_at :: "rat \<Rightarrow> int \<Rightarrow> number" where
  "round_at r q = pack r (of_int (round_half_even (\<bar>r\<bar> / pw 2 q)) * pw 2 q)"

definition fround :: "rat \<Rightarrow> number" where
  "fround r =
     (if r = 0 then Fin 0 else round_at r (max (floor_log 2 \<bar>r\<bar> - 52) (- 1074)))"

text \<open>The rationals that are doubles are those that rounding leaves as they are.\<close>

definition is_double :: "rat \<Rightarrow> bool" where
  "is_double r = (fround r = Fin r)"

subsection \<open>Arithmetic used by the formatter\<close>

text \<open>\<open>Number.isInteger(v)\<close>.\<close>

fun isInteger :: "number \<Rightarrow> bool" where
  "isInteger (Fin r) = (of_int \<lfloor>r\<rfloor> = r)"
| "isInteger _ = False"

text \<open>\<open>Math.round(v)\<close>: the integer nearest to \<open>v\<close>, a tie going upwards.\<close>

fun Math_round :: "number \<Rightarrow> number" where
  "Math_round (Fin r) = Fin (of_int \<lfloor>r + 1 / 2\<rfloor>)"
| "Math_round x = x"

text \<open>
  The operators \<open>*\<close> and \<open>/\<close>. As the sign of zero is not represented, a quotient by
  zero is taken as a quotient by \<open>+0\<close>; the formatter divides by 10000 only.
\<close>

fun sign_of :: "number \<Rightarrow> int" where
  "sign_of NaN = 0"
| "sign_of PosInf = 1"
| "sign_of NegInf = - 1"
| "sign_of (Fin r) = (if r < 0 then - 1 else if 0 < r then 1 else 0)"

fun signed_inf :: "int \<Rightarrow> number" where
  "signed_inf s = (if 0 < s then PosInf else if s < 0 then NegInf else NaN)"

fun num_times :: "number \<Rightarrow> number \<Rightarrow> number" where
  "num_times (Fin a) (Fin b) = fround (a * b)"
| "num_times x y = signed_inf (sign_of x * sign_of y)"

fun num_divide :: "number \<Rightarrow> number \<Rightarrow> number" where
  "num_divide (Fin a) (Fin b) = (if b = 0 then signed_inf (sign_of (Fin a)) else fround (a / b))"
| "num_divide (Fin a) NaN = NaN"
| "num_divide (Fin a) y = Fin 0"
| "num_divide x (Fin b) = signed_inf (sign_of x * (if b < 0 then - 1 else 1))"
| "num_divide x y = NaN"

subsection \<open>Number to string\<close>

definition digit :: "nat \<Rightarrow> code_unit" where
  "digit d = of_nat (48 + d)"

text \<open>The decimal digits of a natural number, the most significant first.\<close>

fun dec :: "nat \<Rightarrow> jsstring" where
  "dec n = (if n < 10 then [digit n] else dec (n div 10) @ [digit (n mod 10)])"

declare dec.simps [simp del]

text \<open>
  \<open>Number::toString\<close> of ECMAScript for a positive finite \<open>x\<close> takes integers
  \<open>n\<close>, \<open>k\<close>, \<open>s\<close> with \<open>k \<ge> 1\<close>, \<open>10 ^ (k - 1) \<le> s < 10 ^ k\<close>, such that
  \<open>s * 10 ^ (n - k)\<close> rounds to \<open>x\<close>, with \<open>k\<close> as small as possible, and of these the
  \<open>s\<close> whose value is closest to \<open>x\<close>. For each \<open>k\<close> from 1 on, the two
  \<open>k\<close>-digit decimals around \<open>x\<close> are tried; 17 digits identify every double.
\<close>

definition cand_ok :: "rat \<Rightarrow> int \<Rightarrow> nat \<Rightarrow> bool" where
  "cand_ok x e s = (fround (of_nat s * pw 10 e) = Fin x)"

definition lo_digits :: "rat \<Rightarrow> int \<Rightarrow> nat" where
  "lo_digits x e = nat \<lfloor>x / pw 10 e\<rfloor>"

definition closer_lo :: "rat \<Rightarrow> int \<Rightarrow> nat \<Rightarrow> bool" where
  "closer_lo x e s =
     (x - of_nat s * pw 10 e < of_nat (s + 1) * pw 10 e - x \<or>
      (x - of_nat s * pw 10 e = of_nat (s + 1) * pw 10 e - x \<and> even s))"

definition pick :: "rat \<Rightarrow> int \<Rightarrow> nat \<Rightarrow> nat option" where
  "pick x e s =
     (if cand_ok x e s \<and> (\<not> cand_ok x e (s + 1) \<or> closer_lo x e s) then Some s
      else if cand_ok x e (s + 1) then Some (s + 1)
      else None)"

function shortest :: "rat \<Rightarrow> int \<Rightarrow> nat \<Rightarrow> nat \<times> nat" where
  "shortest x n k =
     (case pick x (n - int k) (lo_digits x (n - int k)) of
        Some s \<Rightarrow> (s, k)
      | None \<Rightarrow> if 17 \<le> k then (lo_digits x (n - int k), k) else shortest x n (k + 1))"
  by pat_completeness auto
termination
  by (relation "measure (\<lambda>(x, n, k). 17 - k)") auto

declare shortest.simps [simp del]

definition exponent_part :: "int \<Rightarrow> jsstring" where
  "exponent_part e = js ''e'' @ (if e < 0 then js ''-'' else js ''+'') @ dec (nat \<bar>e\<bar>)"

text \<open>The layout of the digits \<open>ds\<close> (there are \<open>k\<close> of them) with the decimal point after \<open>n\<close> digits.\<close>

definition layout :: "jsstring \<Rightarrow> nat \<Rightarrow> int \<Rightarrow> jsstring" where
  "layout ds k n =
     (if - 5 \<le> n \<and> n \<le> 21 then
        (if int k \<le> n then ds @ replicate (nat (n - int k)) (digit 0)
         else if 0 < n then take (nat n) ds @ js ''.'' @ drop (nat n) ds
         else js ''0.'' @ replicate (nat (- n)) (digit 0) @ ds)
      else if k = 1 then ds @ exponent_part (n - 1)
      else take 1 ds @ js ''.'' @ drop 1 ds @ exponent_part (n - 1))"

text \<open>When the upper decimal is \<open>10 ^ k\<close>, it is written with the next exponent.\<close>

definition normal_form :: "nat \<times> nat \<Rightarrow> int \<Rightarrow> jsstring" where
  "normal_form sk n =
     (if fst sk = 10 ^ snd sk then layout (dec (10 ^ (snd sk - 1))) (snd sk) (n + 1)
      else layout (dec (fst sk)) (snd sk) n)"

definition positive_string :: "rat \<Rightarrow> jsstring" where
  "positive_string x = normal_form (shortest x (floor_log 10 x + 1) 1) (floor_log 10 x + 1)"

fun NumberToString :: "number \<Rightarrow> jsstring" where
  "NumberToString NaN = js ''NaN''"
| "NumberToString PosInf = js ''Infinity''"
| "NumberToString NegInf = js ''-Infinity''"
| "NumberToString (Fin x) =
     (if x = 0 then js ''0''
      else if x < 0 then js ''-'' @ positive_string (- x)
      else positive_string x)"

subsection \<open>toFixed\<close>

datatype error = TypeError | RangeError

text \<open>
  \<open>Number.prototype.toFixed(f)\<close>: a RangeError unless \<open>0 \<le> f \<le> 100\<close>; a value that
  is not finite is converted by \<open>Number::toString\<close>, and so is a magnitude from \<open>10 ^ 21\<close>
  on; otherwise the digits of the integer \<open>n\<close> nearest to \<open>x * 10 ^ f\<close> (the larger one
  at a tie), padded with zeros to at least \<open>f + 1\<close> digits, with the point before the last
  \<open>f\<close> of them.
\<close>

definition pad_zeros :: "nat \<Rightarrow> jsstring \<Rightarrow> jsstring" where
  "pad_zeros f m = (if length m \<le> f then replicate (f + 1 - length m) (digit 0) @ m else m)"

definition insert_point :: "nat \<Rightarrow> jsstring \<Rightarrow> jsstring" where
  "insert_point f m = take (length m - f) m @ js ''.'' @ drop (length m - f) m"

definition fixed_digits :: "nat \<Rightarrow> nat \<Rightarrow> jsstring" where
  "fixed_digits n f = (if f = 0 then dec n else insert_point f (pad_zeros f (dec n)))"

definition fixed_string :: "rat \<Rightarrow> nat \<Rightarrow> jsstring" where
  "fixed_string r f =
     (if r < 0 then js ''-'' else []) @
     (if 10 ^ 21 \<le> \<bar>r\<bar> then NumberToString (Fin \<bar>r\<bar>)
      else fixed_digits (nat \<lfloor>\<bar>r\<bar> * 10 ^ f + 1 / 2\<rfloor>) f)"

definition toFixed :: "number \<Rightarrow> nat \<Rightarrow> error + jsstring" where
  "toFixed x f =
     (if 100 < f then Inl RangeError
      else Inr (case x of Fin r \<Rightarrow> fixed_string r f | _ \<Rightarrow> NumberToString x))"

section \<open>Values\<close>

text \<open>
  The values the functions receive: \<open>undefined\<close>, and what the JSON of the two endpoints
  decodes to (\<open>null\<close>, booleans, numbers, strings, arrays and plain objects, an object
  being its own properties in order).
\<close>

datatype jsval =
    Undefined
  | Null
  | Bool bool
  | Num number
  | Str jsstring
  | Arr "jsval list"
  | Obj "(jsstring \<times> jsval) list"

text \<open>The results of a sequence of computations, or the first error among them.\<close>

fun results :: "('e + 'a) list \<Rightarrow> 'e + 'a list" where
  "results [] = Inr []"
| "results (x # xs) =
     (case x of
        Inl e \<Rightarrow> Inl e
      | Inr y \<Rightarrow> (case results xs of Inl e \<Rightarrow> Inl e | Inr ys \<Rightarrow> Inr (y # ys)))"

text \<open>
  \<open>String(v)\<close>. An array is its elements joined by commas, \<open>null\<close> and \<open>undefined\<close>
  elements being empty, and the conversion of an element may throw. A plain object is
  converted by the method \<open>toString\<close> that is looked up on it: \<open>Object.prototype.toString\<close>,
  which gives \<open>"[object Object]"\<close>, unless the object has a property \<open>toString\<close> of its
  own. A value decoded from JSON is never a function, so that property cannot be called;
  \<open>valueOf\<close> is tried next and gives no primitive value (its own property cannot be called
  either, and the inherited one returns the object), and the conversion throws a
  \<open>TypeError\<close>.
\<close>

fun ToString :: "jsval \<Rightarrow> error + jsstring" where
  "ToString Undefined = Inr (js ''undefined'')"
| "ToString Null = Inr (js ''null'')"
| "ToString (Bool b) = Inr (if b then js ''true'' else js ''false'')"
| "ToString (Num x) = Inr (NumberToString x)"
| "ToString (Str s) = Inr s"
| "ToString (Arr xs) =
     (case results (map (\<lambda>x. if x = Undefined \<or> x = Null then Inr [] else ToString x) xs) of
        Inl e \<Rightarrow> Inl e
      | Inr ss \<Rightarrow> Inr (join (js '','') ss))"
| "ToString (Obj fs) =
     (if js ''toString'' \<in> set (map fst fs) then Inl TypeError
      else Inr (js ''[object Object]''))"

text \<open>The values that count as true in \<open>v || d\<close>.\<close>

fun truthy :: "jsval \<Rightarrow> bool" where
  "truthy Undefined = False"
| "truthy Null = False"
| "truthy (Bool b) = b"
| "truthy (Num x) = (x \<noteq> NaN \<and> x \<noteq> Fin 0)"
| "truthy (Str s) = (s \<noteq> [])"
| "truthy (Arr xs) = True"
| "truthy (Obj fs) = True"

section \<open>Formatting helpers (App.jsx, lines 10 to 31)\<close>

text \<open>
  \<open>formatCell(v, key = "")\<close>. \<open>String(key)\<close> is evaluated for a number only, and what it
  throws is thrown by \<open>formatCell\<close>; so is what \<open>String(v)\<close> throws in the last line.
\<close>

definition formatCell :: "case_table \<Rightarrow> jsval \<Rightarrow> jsval \<Rightarrow> error + jsstring" where
  "formatCell tbl v key =
     (if v = Null \<or> v = Undefined then Inr []
      else case v of
        Num x \<Rightarrow>
          (case ToString (if key = Undefined then Str [] else key) of
             Inl e \<Rightarrow> Inl e
           | Inr ks \<Rightarrow>
              (let k = toLowerCase tbl ks in
               if includes_str k (js ''econ'') then toFixed x 2
               else if k = js ''sr'' \<or> includes_str k (js ''sr_'') \<or> includes_str k (js ''_sr'')
                       \<or> includes_str k (js ''strike'') then toFixed x 1
               else if includes_str k (js ''dismiss'') then toFixed x 1
               else if includes_str k (js ''wicket_pct'')
                       \<or> includes_str k (js ''wicket_pct_per_start'') then toFixed x 1
               else if includes_str k (js ''share'') then toFixed x 1
               else (let isInt = isInteger x in
                     if isInt then ToString (Num x)
                     else ToString (Num (num_divide (Math_round (num_times x (Fin 10000)))
                                                     (Fin 10000))))))
      | _ \<Rightarrow> ToString v)"

text \<open>The em dash U+2014.\<close>

definition em_dash :: jsstring where
  "em_dash = [0x2014]"

definition fmt :: "case_table \<Rightarrow> jsval \<Rightarrow> jsval \<Rightarrow> error + jsstring" where
  "fmt tbl v key = (if v = Null \<or> v = Undefined then Inr em_dash else formatCell tbl v key)"

definition fmtPct :: "case_table \<Rightarrow> jsval \<Rightarrow> jsval \<Rightarrow> error + jsstring" where
  "fmtPct tbl v key =
     (if v = Null \<or> v = Undefined then Inr em_dash
      else case formatCell tbl v key of Inl e \<Rightarrow> Inl e | Inr s \<Rightarrow> Inr (s @ js ''%''))"

text \<open>
  The lower-cased field key \<open>k\<close> of \<open>formatCell\<close>, the default of \<open>key\<close> being \<open>""\<close>,
  or what \<open>String(key)\<close> throws.
\<close>

definition lower_key :: "case_table \<Rightarrow> jsval \<Rightarrow> error + jsstring" where
  "lower_key tbl k =
     (case ToString (if k = Undefined then Str [] else k) of
        Inl e \<Rightarrow> Inl e
      | Inr ks \<Rightarrow> Inr (toLowerCase tbl ks))"

section \<open>Search helpers (App.jsx, lines 64 to 85)\<close>

definition normalizeText :: "case_table \<Rightarrow> jsval \<Rightarrow> error + jsstring" where
  "normalizeText tbl s =
     (case ToString (if truthy s then s else Str []) of
        Inl e \<Rightarrow> Inl e
      | Inr t \<Rightarrow> Inr (trim (replace_ws (toLowerCase tbl t))))"

text \<open>
  The five entries of the array that \<open>buildSearchKey\<close> joins: \<open>firstLast\<close>, \<open>lastFirst\<close>,
  \<open>last\<close>, \<open>first\<close> and \<open>compact\<close>, from \<open>parts\<close>. \<open>parts[0] || ""\<close> is the empty
  string when there is no first part, and \<open>parts.slice(0, -1)\<close> is all but the last part.
\<close>

definition first_part :: "jsstring list \<Rightarrow> jsstring" where
  "first_part parts = (case parts of [] \<Rightarrow> [] | p # ps \<Rightarrow> p)"

definition last_part :: "jsstring list \<Rightarrow> jsstring" where
  "last_part parts = (if 1 < length parts then parts ! (length parts - 1) else first_part parts)"

definition forms :: "jsstring list \<Rightarrow> jsstring list" where
  "forms parts =
     [join (js '' '') parts,
      trim (join (js '' '') (last_part parts # butlast parts)),
      last_part parts,
      first_part parts,
      join [] parts]"

definition buildSearchKey :: "case_table \<Rightarrow> jsval \<Rightarrow> error + jsstring" where
  "buildSearchKey tbl fullName =
     (case normalizeText tbl fullName of
        Inl e \<Rightarrow> Inl e
      | Inr n \<Rightarrow>
          Inr (if n = [] then []
               else (let parts = filter (\<lambda>p. p \<noteq> []) (split 0x20 n) in
                     join (js '' | '') (forms parts))))"

section \<open>The options of the searchable select (App.jsx, lines 138 to 150)\<close>

record opt =
  name :: jsval
  key :: jsstring

text \<open>
  \<open>options\<close> is an array, or absent (\<open>options || []\<close>); \<open>slice(0, 150)\<close> keeps the first
  150. The keys of all options are built first, in order, then the query is normalized;
  what either throws is thrown by the whole computation.
\<close>

definition opts :: "case_table \<Rightarrow> jsval list option \<Rightarrow> jsval \<Rightarrow> error + opt list" where
  "opts tbl options q =
     (case results (map (\<lambda>name. case buildSearchKey tbl name of
                                   Inl e \<Rightarrow> Inl e
                                 | Inr k \<Rightarrow> Inr \<lparr>name = name, key = k\<rparr>)
                        (case options of None \<Rightarrow> [] | Some xs \<Rightarrow> xs)) of
        Inl e \<Rightarrow> Inl e
      | Inr list \<Rightarrow>
          (case normalizeText tbl q of
             Inl e \<Rightarrow> Inl e
           | Inr qq \<Rightarrow>
               if qq = [] then Inr (take 150 list)
               else (let filtered = filter (\<lambda>op. includes_str (key op) qq) list in
                     Inr (take 150 filtered))))"

section \<open>Auxiliary notions for the proofs\<close>

text \<open>
  What \<open>replace_ws\<close> leaves before the first and after the last word, and the words of
  a lower-cased string.
\<close>

definition lead :: "jsstring \<Rightarrow> jsstring" where
  "lead s = (if s \<noteq> [] \<and> isWhiteSpace (hd s) then [0x20] else [])"

definition trail :: "jsstring \<Rightarrow> jsstring" where
  "trail s = (if words_of s \<noteq> [] \<and> isWhiteSpace (last s) then [0x20] else [])"

definition text_words :: "case_table \<Rightarrow> jsstring \<Rightarrow> jsstring list" where
  "text_words tbl t = words_of (toLowerCase tbl t)"

text \<open>The candidate \<open>c\<close> has a key, and this key contains \<open>qq\<close>.\<close>

definition key_includes :: "case_table \<Rightarrow> jsstring \<Rightarrow> jsval \<Rightarrow> bool" where
  "key_includes tbl qq c =
     (case buildSearchKey tbl c of Inl e \<Rightarrow> False | Inr k \<Rightarrow> includes_str k qq)"

text \<open>
  A string has \<open>f\<close> decimals when it has a decimal point and what follows the first
  one is exactly \<open>f\<close> decimal digits.
\<close>

definition is_digit :: "code_unit \<Rightarrow> bool" where
  "is_digit c = (0x30 \<le> c \<and> c \<le> 0x39)"

definition after_point :: "jsstring \<Rightarrow> jsstring" where
  "after_point s = drop 1 (dropWhile (\<lambda>c. c \<noteq> 0x2E) s)"

definition has_decimals :: "nat \<Rightarrow> jsstring \<Rightarrow> bool" where
  "has_decimals f s =
     (0x2E \<in> set s \<and> length (after_point s) = f \<and> list_all is_digit (after_point s))"

text \<open>The lower-cased key matches none of the five naming rules of \<open>formatCell\<close>.\<close>

definition no_naming_rule :: "jsstring \<Rightarrow> bool" where
  "no_naming_rule k =
     (\<not> includes_str k (js ''econ'') \<and> k \<noteq> js ''sr'' \<and> \<not> includes_str k (js ''sr_'') \<and>
      \<not> includes_str k (js ''_sr'') \<and> \<not> includes_str k (js ''strike'') \<and>
      \<not> includes_str k (js ''dismiss'') \<and> \<not> includes_str k (js ''wicket_pct'') \<and>
      \<not> includes_str k (js ''share''))"


text \<open>
  The values that \<open>String\<close> converts without throwing: all but a plain object with a
  property \<open>toString\<close> of its own, and an array with an element that is not converted.
\<close>

fun convertible :: "jsval \<Rightarrow> bool" where
  "convertible (Arr xs) = list_all convertible xs"
| "convertible (Obj fs) = (js ''toString'' \<notin> set (map fst fs))"
| "convertible v = True"

section \<open>Facts about strings\<close>


lemma isWhiteSpace_lower [simp]: "isWhiteSpace (lower_latin1 c) = isWhiteSpace c"
  unfolding lower_latin1_def isWhiteSpace_def
  by (auto simp: word_le_nat_alt word_unat_eq_iff unat_word_ariths split: if_splits)

lemma lower_latin1_idem [simp]: "lower_latin1 (lower_latin1 c) = lower_latin1 c"
  unfolding lower_latin1_def
  by (auto simp: word_le_nat_alt word_unat_eq_iff unat_word_ariths split: if_splits)

lemma lower_space [simp]: "lower_latin1 0x20 = 0x20"
  by (simp add: lower_latin1_def)

lemma space_ws [simp]: "isWhiteSpace 0x20"
  by (simp add: isWhiteSpace_def)

lemma word_ok_Cons: "word_ok (c # w) \<longleftrightarrow> \<not> isWhiteSpace c \<and> (w = [] \<or> word_ok w)"
  by (auto simp: word_ok_def)

lemma word_ok_hd: "word_ok w \<Longrightarrow> \<not> isWhiteSpace (hd w)"
  by (cases w) (auto simp: word_ok_def)

lemma word_ok_last: "word_ok w \<Longrightarrow> \<not> isWhiteSpace (last w)"
  by (auto simp: word_ok_def list_all_iff)

lemma word_ok_no_space: "word_ok w \<Longrightarrow> 0x20 \<notin> set w"
  by (auto simp: word_ok_def list_all_iff)

lemma words_of_nonempty: "s \<noteq> [] \<Longrightarrow> \<not> isWhiteSpace (hd s) \<Longrightarrow> words_of s \<noteq> []"
  by (cases s) (auto split: list.splits)

lemma words_of_ok: "w \<in> set (words_of s) \<Longrightarrow> word_ok w"
proof (induction s arbitrary: w)
  case Nil
  then show ?case by simp
next
  case (Cons c cs)
  show ?case
  proof (cases "isWhiteSpace c")
    case True
    with Cons show ?thesis by simp
  next
    case False
    show ?thesis
    proof (cases "cs = [] \<or> isWhiteSpace (hd cs)")
      case True
      with False Cons show ?thesis by (auto simp: word_ok_def)
    next
      case nb: False
      then obtain v vs where vs: "words_of cs = v # vs"
        using words_of_nonempty [of cs] by (cases "words_of cs") auto
      then have "word_ok v" using Cons.IH by simp
      with False nb vs Cons show ?thesis by (auto simp: word_ok_Cons)
    qed
  qed
qed



lemma words_of_dropWhile: "words_of (dropWhile isWhiteSpace s) = words_of s"
  by (induction s) auto

lemma words_of_empty_iff: "words_of s = [] \<longleftrightarrow> list_all isWhiteSpace s"
  by (induction s) (auto split: list.splits)



lemma join_Cons_Cons: "ws \<noteq> [] \<Longrightarrow> join sep (w # ws) = w @ sep @ join sep ws"
  by (cases ws) auto

lemma join_head: "join sep ((c # w) # ws) = c # join sep (w # ws)"
  by (cases ws) auto

lemma join_empty_iff: "list_all word_ok W \<Longrightarrow> join sep W = [] \<longleftrightarrow> W = []"
  by (induction sep W rule: join.induct) (auto simp: word_ok_def)

lemma join_nil_concat: "join [] W = concat W"
  by (induction "[]::jsstring" W rule: join.induct) auto

lemma hd_join: "list_all word_ok W \<Longrightarrow> W \<noteq> [] \<Longrightarrow> hd (join sep W) = hd (hd W)"
  by (induction sep W rule: join.induct) (auto simp: word_ok_def)

lemma last_join: "list_all word_ok W \<Longrightarrow> W \<noteq> [] \<Longrightarrow> last (join sep W) = last (last W)"
proof (induction sep W rule: join.induct)
  case (3 sep x y zs)
  then have "join sep (y # zs) \<noteq> []" by (auto simp: join_empty_iff)
  with 3 show ?case by simp
qed auto



lemma split_not_Nil [simp]: "split sep s \<noteq> []"
  by (induction s) (auto split: list.splits)

lemma split_word: "sep \<notin> set w \<Longrightarrow> split sep w = [w]"
  by (induction w) auto

lemma split_word_sep: "sep \<notin> set w \<Longrightarrow> split sep (w @ sep # rest) = w # split sep rest"
  by (induction w) auto

lemma split_join:
  "list_all word_ok W \<Longrightarrow> filter (\<lambda>p. p \<noteq> []) (split 0x20 (join [0x20] W)) = W"
proof (induction "[0x20::code_unit]" W rule: join.induct)
  case 1
  then show ?case by simp
next
  case (2 x)
  then show ?case by (simp add: split_word word_ok_no_space) (simp add: word_ok_def)
next
  case (3 x y zs)
  then show ?case by (simp add: split_word_sep word_ok_no_space) (simp add: word_ok_def)
qed

lemma hd_dropWhile_ws: "dropWhile isWhiteSpace s \<noteq> [] \<Longrightarrow> \<not> isWhiteSpace (hd (dropWhile isWhiteSpace s))"
  using hd_dropWhile by blast

lemma last_dropWhile: "dropWhile P s \<noteq> [] \<Longrightarrow> last (dropWhile P s) = last s"
  by (induction s) (auto split: if_splits)

lemma replace_ws_shape:
  "replace_ws s = lead s @ join [0x20] (words_of s) @ trail s"
proof (induction s rule: replace_ws.induct)
  case 1
  then show ?case by (simp add: lead_def trail_def)
next
  case (2 c cs)
  show ?case
  proof (cases "isWhiteSpace c")
    case True
    let ?r = "dropWhile isWhiteSpace cs"
    have ih: "replace_ws ?r = lead ?r @ join [0x20] (words_of ?r) @ trail ?r"
      using 2 True by simp
    have l: "lead ?r = []" using hd_dropWhile_ws [of cs] by (auto simp: lead_def)
    have w: "words_of ?r = words_of cs" by (rule words_of_dropWhile)
    have t: "trail ?r = trail (c # cs)"
    proof (cases "words_of cs = []")
      case True
      with w show ?thesis using \<open>isWhiteSpace c\<close> by (simp add: trail_def)
    next
      case False
      then have "\<not> list_all isWhiteSpace cs" by (simp add: words_of_empty_iff)
      then have ne: "?r \<noteq> []" by (auto simp: list_all_iff dropWhile_eq_Nil_conv)
      then have "cs \<noteq> []" by auto
      with ne show ?thesis using \<open>isWhiteSpace c\<close> w by (simp add: trail_def last_dropWhile)
    qed
    show ?thesis using True ih l w t by (simp add: lead_def)
  next
    case False
    have ih: "replace_ws cs = lead cs @ join [0x20] (words_of cs) @ trail cs"
      using 2 False by simp
    show ?thesis
    proof (cases "cs = []")
      case True
      with False show ?thesis by (simp add: lead_def trail_def)
    next
      case ne: False
      show ?thesis
      proof (cases "isWhiteSpace (hd cs)")
        case True
        show ?thesis
        proof (cases "words_of cs = []")
          case e: True
          then have "list_all isWhiteSpace cs" by (simp add: words_of_empty_iff)
          with ne have "isWhiteSpace (last cs)" by (simp add: list_all_iff)
          with False ne True e ih show ?thesis by (simp add: lead_def trail_def)
        next
          case n: False
          with False ne True ih show ?thesis
            by (simp add: lead_def trail_def join_Cons_Cons)
        qed
      next
        case nw: False
        then obtain w ws where ws: "words_of cs = w # ws"
          using words_of_nonempty [of cs] ne by (cases "words_of cs") auto
        with False ne nw ih show ?thesis
          by (simp add: lead_def trail_def join_head)
      qed
    qed
  qed
qed

lemma trim_body:
  assumes "list_all isWhiteSpace a" "list_all isWhiteSpace z"
    and "b = [] \<or> (\<not> isWhiteSpace (hd b) \<and> \<not> isWhiteSpace (last b))"
  shows "trim (a @ b @ z) = b"
proof (cases "b = []")
  case True
  have "\<forall>x\<in>set (a @ z). isWhiteSpace x"
    using assms(1,2) by (auto simp: list_all_iff)
  then have d: "dropWhile isWhiteSpace (a @ z) = []"
    by (simp only: dropWhile_eq_Nil_conv)
  have "trim (a @ b @ z) = rev (dropWhile isWhiteSpace (rev (dropWhile isWhiteSpace (a @ z))))"
    using True by (simp only: trim_def append_Nil)
  also have "\<dots> = []" by (simp only: d) simp
  finally show ?thesis using True by simp
next
  case False
  with assms(3) have h: "\<not> isWhiteSpace (hd b)" and l: "\<not> isWhiteSpace (last b)" by auto
  from False obtain x xs where b: "b = x # xs" by (cases b) auto
  have 1: "dropWhile isWhiteSpace (a @ b @ z) = b @ z"
    using assms(1) h b by (simp add: dropWhile_append list_all_iff)
  from False obtain ys y where b': "b = ys @ [y]" by (cases b rule: rev_cases) auto
  have 2: "dropWhile isWhiteSpace (rev (b @ z)) = rev b"
    using assms(2) l b' by (simp add: dropWhile_append list_all_iff)
  show ?thesis by (simp only: trim_def 1 2 rev_rev_ident)
qed

lemma body_ok:
  assumes "list_all word_ok W"
  shows "join [0x20] W = [] \<or>
         (\<not> isWhiteSpace (hd (join [0x20] W)) \<and> \<not> isWhiteSpace (last (join [0x20] W)))"
proof (cases "W = []")
  case True
  then show ?thesis by simp
next
  case False
  then have "word_ok (hd W)" "word_ok (last W)" using assms by (auto simp: list_all_iff)
  then show ?thesis using assms False by (simp add: hd_join last_join word_ok_hd word_ok_last)
qed

lemma words_all_ok: "list_all word_ok (words_of s)"
  by (simp add: list_all_iff words_of_ok)

lemma trim_replace_ws: "trim (replace_ws s) = join [0x20] (words_of s)"
proof -
  have "trim (lead s @ join [0x20] (words_of s) @ trail s) = join [0x20] (words_of s)"
    by (rule trim_body) (auto simp: lead_def trail_def body_ok words_all_ok)
  then show ?thesis by (simp add: replace_ws_shape)
qed


lemma sp_js [simp]: "js '' '' = [0x20]"
  by (simp add: js_def)


lemma toLowerCase_Nil [simp]: "toLowerCase tbl [] = []"
  by (simp add: toLowerCase_def latin1_def)


lemma text_words_ok: "list_all word_ok (text_words tbl t)"
  by (simp add: text_words_def words_all_ok)

lemma or_empty_Str: "ToString (if truthy (Str s) then Str s else Str []) = Inr s"
  by simp

lemma normalizeText_Str: "normalizeText tbl (Str s) = Inr (join [0x20] (text_words tbl s))"
  by (simp only: normalizeText_def or_empty_Str sum.case trim_replace_ws text_words_def)

lemma normalizeText_falsy: "\<not> truthy v \<Longrightarrow> normalizeText tbl v = Inr []"
  by (simp add: normalizeText_def trim_def)

lemma normalizeText_truthy:
  "truthy v \<Longrightarrow>
   normalizeText tbl v =
     (case ToString v of Inl e \<Rightarrow> Inl e | Inr t \<Rightarrow> Inr (join [0x20] (text_words tbl t)))"
  by (simp add: normalizeText_def trim_replace_ws text_words_def split: sum.splits)

lemma normalizeText_InrD:
  assumes "normalizeText tbl v = Inr n"
  shows "\<exists>t. n = join [0x20] (text_words tbl t)"
proof (cases "truthy v")
  case True
  with assms show ?thesis by (auto simp: normalizeText_truthy split: sum.splits)
next
  case False
  with assms have "n = []" by (simp add: normalizeText_falsy)
  then have "n = join [0x20] (text_words tbl [])" by (simp add: text_words_def)
  then show ?thesis by blast
qed

lemma parts_eq:
  "filter (\<lambda>p. p \<noteq> []) (split 0x20 (join [0x20] (text_words tbl t))) = text_words tbl t"
  by (simp add: split_join text_words_ok)

lemma first_part_hd: "W \<noteq> [] \<Longrightarrow> first_part W = hd W"
  by (cases W) (auto simp: first_part_def)

lemma last_part_last: "W \<noteq> [] \<Longrightarrow> last_part W = last W"
  by (cases W) (auto simp: last_part_def first_part_def last_conv_nth)

lemma forms_words:
  assumes "list_all word_ok W" "W \<noteq> []"
  shows "forms W = [join [0x20] W, join [0x20] (last W # butlast W), last W, hd W, concat W]"
proof -
  have ok: "list_all word_ok (last W # butlast W)"
    using assms by (auto simp: list_all_iff dest: in_set_butlastD)
  have "trim ([] @ join [0x20] (last W # butlast W) @ []) = join [0x20] (last W # butlast W)"
    by (rule trim_body) (simp_all add: body_ok [OF ok])
  then show ?thesis
    using assms by (simp add: forms_def first_part_hd last_part_last join_nil_concat)
qed

lemma buildSearchKey_words:
  assumes "normalizeText tbl v = Inr (join [0x20] (text_words tbl t))"
  shows "buildSearchKey tbl v =
     Inr (if text_words tbl t = [] then []
          else join (js '' | '') (forms (text_words tbl t)))"
  using assms
  by (simp add: buildSearchKey_def parts_eq Let_def join_empty_iff text_words_ok)

lemma buildSearchKey_raises:
  "normalizeText tbl v = Inl e \<Longrightarrow> buildSearchKey tbl v = Inl e"
  by (simp add: buildSearchKey_def)

lemma buildSearchKey_same:
  "normalizeText tbl v = normalizeText tbl w \<Longrightarrow> buildSearchKey tbl v = buildSearchKey tbl w"
  by (simp add: buildSearchKey_def)

lemma buildSearchKey_Str_total: "\<exists>k. buildSearchKey tbl (Str s) = Inr k"
  by (simp add: buildSearchKey_def normalizeText_Str)








lemma includes_str_iff: "includes_str s t \<longleftrightarrow> (\<exists>p q. s = p @ t @ q)"
proof (induction s)
  case Nil
  then show ?case by auto
next
  case (Cons c cs)
  show ?case
  proof
    assume "includes_str (c # cs) t"
    then consider "prefix t (c # cs)" | "includes_str cs t" by auto
    then show "\<exists>p q. c # cs = p @ t @ q"
    proof cases
      case 1
      then obtain q where "c # cs = t @ q" by (auto simp: prefix_def)
      then have "c # cs = [] @ t @ q" by simp
      then show ?thesis by blast
    next
      case 2
      with Cons.IH obtain p q where "cs = p @ t @ q" by blast
      then have "c # cs = (c # p) @ t @ q" by simp
      then show ?thesis by blast
    qed
  next
    assume "\<exists>p q. c # cs = p @ t @ q"
    then obtain p q where pq: "c # cs = p @ t @ q" by blast
    show "includes_str (c # cs) t"
    proof (cases p)
      case Nil
      with pq have "prefix t (c # cs)" by (simp add: prefix_def)
      then show ?thesis by simp
    next
      case (Cons a p')
      with pq have "cs = p' @ t @ q" by simp
      with Cons.IH have "includes_str cs t" by blast
      then show ?thesis by simp
    qed
  qed
qed

section \<open>Facts about the formatter\<close>


lemma digit_is_digit:
  assumes "d < 10"
  shows "is_digit (digit d)"
proof -
  have "unat (word_of_nat (48 + d) :: 16 word) = (48 + d) mod 2 ^ LENGTH(16)"
    by (rule unat_of_nat)
  also have "\<dots> = 48 + d" using assms by simp
  finally have u: "unat (word_of_nat (48 + d) :: 16 word) = 48 + d" .
  show ?thesis
    unfolding digit_def is_digit_def word_le_nat_alt u using assms by simp
qed

lemma not_digit_point [simp]: "\<not> is_digit 0x2E"
  by (simp add: is_digit_def)

lemma dec_digits: "list_all is_digit (dec n)"
proof (induction n rule: dec.induct)
  case (1 n)
  show ?case
  proof (cases "n < 10")
    case True
    then show ?thesis by (simp add: dec.simps [of n] digit_is_digit)
  next
    case False
    with 1 show ?thesis by (simp add: dec.simps [of n] digit_is_digit)
  qed
qed

lemma dec_not_Nil [simp]: "dec n \<noteq> []"
  by (simp add: dec.simps [of n])

lemma is_digit_not_point: "is_digit c \<Longrightarrow> c \<noteq> 0x2E"
  by (auto simp: is_digit_def)

lemma pad_zeros_digits: "list_all is_digit m \<Longrightarrow> list_all is_digit (pad_zeros f m)"
  using digit_is_digit [of 0] by (simp add: pad_zeros_def list_all_iff)

lemma pad_zeros_length: "f < length (pad_zeros f m)"
  by (simp add: pad_zeros_def)

lemma point_js [simp]: "js ''.'' = [0x2E]"
  by (simp add: js_def)

lemma minus_js [simp]: "js ''-'' = [0x2D]"
  by (simp add: js_def)

lemma has_decimals_point:
  assumes "list_all (\<lambda>c. c \<noteq> 0x2E) a" "list_all is_digit b"
  shows "has_decimals (length b) (a @ [0x2E] @ b)"
proof -
  have "dropWhile (\<lambda>c. c \<noteq> 0x2E) (a @ [0x2E] @ b) = 0x2E # b"
    using assms(1) by (simp add: dropWhile_append list_all_iff)
  then show ?thesis using assms(2) by (simp add: has_decimals_def after_point_def)
qed

lemma fixed_string_decimals:
  assumes "0 < f" "\<bar>r\<bar> < 10 ^ 21"
  shows "has_decimals f (fixed_string r f)"
proof -
  let ?m = "pad_zeros f (dec (nat \<lfloor>\<bar>r\<bar> * 10 ^ f + 1 / 2\<rfloor>))"
  let ?sign = "if r < 0 then [0x2D] else []"
  have dm: "list_all is_digit ?m" by (simp add: pad_zeros_digits dec_digits)
  have lm: "f < length ?m" by (rule pad_zeros_length)
  have a: "list_all (\<lambda>c. c \<noteq> 0x2E) (?sign @ take (length ?m - f) ?m)"
    unfolding list_all_iff
  proof
    fix x
    assume "x \<in> set (?sign @ take (length ?m - f) ?m)"
    then consider "x = 0x2D" | "x \<in> set ?m"
      by (auto split: if_splits dest: in_set_takeD)
    then show "x \<noteq> 0x2E"
    proof cases
      case 1
      then show ?thesis by simp
    next
      case 2
      with dm have "is_digit x" by (simp add: list_all_iff)
      then show ?thesis by (rule is_digit_not_point)
    qed
  qed
  have b: "list_all is_digit (drop (length ?m - f) ?m)"
    using dm set_drop_subset [of "length ?m - f" ?m] by (auto simp: list_all_iff)
  have l: "length (drop (length ?m - f) ?m) = f" using lm by simp
  have "fixed_string r f = (?sign @ take (length ?m - f) ?m) @ [0x2E] @ drop (length ?m - f) ?m"
    using assms by (simp add: fixed_string_def fixed_digits_def insert_point_def)
  moreover have "has_decimals (length (drop (length ?m - f) ?m))
      ((?sign @ take (length ?m - f) ?m) @ [0x2E] @ drop (length ?m - f) ?m)"
    using a b by (rule has_decimals_point)
  ultimately show ?thesis using l by simp
qed

lemma toFixed_decimals:
  assumes "0 < f" "f \<le> 100" "\<bar>r\<bar> < 10 ^ 21"
  shows "\<exists>s. toFixed (Fin r) f = Inr s \<and> has_decimals f s"
  using assms fixed_string_decimals [of f r] by (simp add: toFixed_def)

lemma toFixed_total: "f \<le> 100 \<Longrightarrow> \<exists>s. toFixed x f = Inr s"
  by (simp add: toFixed_def)

lemma floor_rat_numeral_div [simp]:
  "\<lfloor>(numeral a :: rat) / numeral b\<rfloor> = numeral a div numeral b"
  using floor_divide_of_int_eq [of "numeral a" "numeral b", where ?'a = rat] by simp

lemma floor_rat_one_div [simp]:
  "\<lfloor>(1 :: rat) / numeral b\<rfloor> = 1 div numeral b"
  using floor_divide_of_int_eq [of 1 "numeral b", where ?'a = rat] by simp

lemmas fixed_eval = toFixed_def fixed_string_def fixed_digits_def pad_zeros_def insert_point_def
  dec.simps digit_def js_def

lemmas key_eval = formatCell_def lower_key_def toLowerCase_def latin1_def lower_latin1_def
  Let_def

lemma formatCell_Num:
  assumes "lower_key tbl k = Inr kk"
  shows "formatCell tbl (Num x) k =
     (if includes_str kk (js ''econ'') then toFixed x 2
      else if kk = js ''sr'' \<or> includes_str kk (js ''sr_'')
              \<or> includes_str kk (js ''_sr'')
              \<or> includes_str kk (js ''strike'') then toFixed x 1
      else if includes_str kk (js ''dismiss'') then toFixed x 1
      else if includes_str kk (js ''wicket_pct'')
              \<or> includes_str kk (js ''wicket_pct_per_start'') then toFixed x 1
      else if includes_str kk (js ''share'') then toFixed x 1
      else Inr (if isInteger x then NumberToString x
                else NumberToString (num_divide (Math_round (num_times x (Fin 10000)))
                                                 (Fin 10000))))"
proof -
  obtain ks where ks: "ToString (if k = Undefined then Str [] else k) = Inr ks"
    and kk: "kk = toLowerCase tbl ks"
    using assms by (auto simp: lower_key_def split: sum.splits)
  show ?thesis by (simp add: formatCell_def ks kk Let_def)
qed

lemma formatCell_Num_raises:
  "lower_key tbl k = Inl e \<Longrightarrow> formatCell tbl (Num x) k = Inl e"
  by (cases "ToString (if k = Undefined then Str [] else k)")
    (simp_all add: formatCell_def lower_key_def)

lemma lower_key_econ: "lower_key tbl (Str (js ''econ'')) = Inr (js ''econ'')"
  by (simp add: key_eval js_def)

lemma lower_key_sr: "lower_key tbl (Str (js ''sr'')) = Inr (js ''sr'')"
  by (simp add: key_eval js_def)

lemma lower_key_econ_share: "lower_key tbl (Str (js ''econ_share'')) = Inr (js ''econ_share'')"
  by (simp add: key_eval js_def)

lemma percent_js [simp]: "js ''%'' = [0x25]"
  by (simp add: js_def)

lemma twelve: "toFixed (Fin (3473401212609495 / 281474976710656)) 1 = Inr (js ''12.3'')"
  by (simp add: fixed_eval)

lemma lower_key_wicket:
  "lower_key tbl (Str (js ''wicket_pct_per_start'')) = Inr (js ''wicket_pct_per_start'')"
  by (simp add: key_eval js_def)

lemma cell_twelve:
  "formatCell tbl (Num (Fin (3473401212609495 / 281474976710656)))
     (Str (js ''wicket_pct_per_start'')) = Inr (js ''12.3'')"
  unfolding formatCell_Num [OF lower_key_wicket] twelve by (simp add: js_def)

lemma wicket_longer:
  "includes_str s (js ''wicket_pct_per_start'') \<Longrightarrow> includes_str s (js ''wicket_pct'')"
  unfolding includes_str_iff
proof -
  assume "\<exists>p q. s = p @ js ''wicket_pct_per_start'' @ q"
  then obtain p q where "s = p @ js ''wicket_pct_per_start'' @ q" by blast
  moreover have "js ''wicket_pct_per_start'' = js ''wicket_pct'' @ js ''_per_start''"
    by (simp add: js_def)
  ultimately have "s = p @ js ''wicket_pct'' @ (js ''_per_start'' @ q)" by simp
  then show "\<exists>p q. s = p @ js ''wicket_pct'' @ q" by blast
qed

lemma formatCell_no_rule:
  assumes "lower_key tbl k = Inr kk" "no_naming_rule kk"
  shows "formatCell tbl (Num x) k =
     Inr (if isInteger x then NumberToString x
          else NumberToString (num_divide (Math_round (num_times x (Fin 10000))) (Fin 10000)))"
  using assms(2) wicket_longer [of kk]
  by (auto simp: formatCell_Num [OF assms(1)] no_naming_rule_def)

lemma lower_key_runs: "lower_key tbl (Str (js ''runs'')) = Inr (js ''runs'')"
  by (simp add: key_eval js_def)

lemma lower_key_misc: "lower_key tbl (Str (js ''misc'')) = Inr (js ''misc'')"
  by (simp add: key_eval js_def)

lemma no_rule_runs: "no_naming_rule (js ''runs'')"
  by (simp add: no_naming_rule_def js_def)

lemma no_rule_misc: "no_naming_rule (js ''misc'')"
  by (simp add: no_naming_rule_def js_def)

section \<open>Facts about rounding and the printing of numbers\<close>

lemma pw_powi: "pw b e = of_nat b powi e"
  by (simp add: pw_def power_int_def inverse_eq_divide power_one_over)

lemma pw_pos: "0 < b \<Longrightarrow> 0 < pw b e"
  by (simp add: pw_powi)

lemma pw_add_1: "0 < b \<Longrightarrow> pw b (e + 1) = pw b e * of_nat b"
  by (simp add: pw_powi power_int_add_1)

lemma pw_minus_1: "0 < b \<Longrightarrow> pw b (e - 1) = pw b e / of_nat b"
  using pw_add_1 [of b "e - 1"] by simp

lemma pw_nat: "pw b (int n) = of_nat b ^ n"
  by (simp add: pw_def)

lemma pw_mono: "2 \<le> b \<Longrightarrow> e \<le> e' \<Longrightarrow> pw b e \<le> pw b e'"
  by (simp add: pw_powi power_int_increasing)

lemma pw_less_imp: "2 \<le> b \<Longrightarrow> pw b e < pw b e' \<Longrightarrow> e < e'"
  using pw_mono [of b e' e] by (cases "e < e'") auto

lemma log_up_bounds:
  "2 \<le> b \<Longrightarrow> 1 \<le> a \<Longrightarrow>
     0 \<le> log_up b a \<and> pw b (log_up b a) \<le> a \<and> a < pw b (log_up b a + 1)"
proof (induction b a rule: log_up.induct)
  case (1 b a)
  show ?case
  proof (cases "of_nat b \<le> a")
    case True
    have b0: "(0::rat) < of_nat b" using 1(2) by simp
    have "1 \<le> a / of_nat b" using True b0 by (simp add: le_divide_eq)
    with 1 True have ih: "0 \<le> log_up b (a / of_nat b) \<and>
        pw b (log_up b (a / of_nat b)) \<le> a / of_nat b \<and>
        a / of_nat b < pw b (log_up b (a / of_nat b) + 1)" by simp
    have e: "log_up b a = log_up b (a / of_nat b) + 1"
      using True 1(2) by (subst log_up.simps) simp
    have bp: "0 < b" using 1(2) by simp
    have p1: "pw b (log_up b a) = pw b (log_up b (a / of_nat b)) * of_nat b"
      unfolding e by (rule pw_add_1 [OF bp])
    have p2: "pw b (log_up b a + 1) = pw b (log_up b (a / of_nat b) + 1) * of_nat b"
      unfolding e by (rule pw_add_1 [OF bp])
    from ih b0 have "pw b (log_up b (a / of_nat b)) * of_nat b \<le> a"
      by (simp add: le_divide_eq)
    moreover from ih b0 have "a < pw b (log_up b (a / of_nat b) + 1) * of_nat b"
      by (simp add: divide_less_eq)
    moreover have "0 \<le> log_up b a" using ih e by simp
    ultimately show ?thesis by (simp only: p1 p2)
  next
    case False
    then have e: "log_up b a = 0" by (subst log_up.simps) simp
    with False 1(3) show ?thesis by (simp add: pw_def)
  qed
qed

lemma log_down_bounds:
  "2 \<le> b \<Longrightarrow> 0 < a \<Longrightarrow> a < 1 \<Longrightarrow>
     log_down b a < 0 \<and> pw b (log_down b a) \<le> a \<and> a < pw b (log_down b a + 1)"
proof (induction b a rule: log_down.induct)
  case (1 b a)
  have b0: "(0::rat) < of_nat b" using 1(2) by simp
  have bp: "0 < b" using 1(2) by simp
  have e: "log_down b a = log_down b (a * of_nat b) - 1"
    using 1(2,3,4) by (subst log_down.simps) simp
  show ?case
  proof (cases "a * of_nat b < 1")
    case True
    have "0 < a * of_nat b" using 1(3) b0 by simp
    with 1 True have ih: "log_down b (a * of_nat b) < 0 \<and>
        pw b (log_down b (a * of_nat b)) \<le> a * of_nat b \<and>
        a * of_nat b < pw b (log_down b (a * of_nat b) + 1)" by simp
    from ih b0 have "pw b (log_down b (a * of_nat b)) / of_nat b \<le> a"
      by (simp add: divide_le_eq)
    moreover from ih b0 have "a < pw b (log_down b (a * of_nat b) + 1) / of_nat b"
      by (simp add: less_divide_eq)
    moreover have p1: "pw b (log_down b a) = pw b (log_down b (a * of_nat b)) / of_nat b"
      unfolding e by (rule pw_minus_1 [OF bp])
    moreover have p2: "pw b (log_down b a + 1) = pw b (log_down b (a * of_nat b) + 1) / of_nat b"
      unfolding e using pw_minus_1 [OF bp, of "log_down b (a * of_nat b) + 1"] by simp
    moreover have "log_down b a < 0" using ih e by simp
    ultimately show ?thesis by (simp only: p1 p2)
  next
    case False
    then have z: "log_down b (a * of_nat b) = 0" by (subst log_down.simps) simp
    from False b0 have "1 / of_nat b \<le> a" by (simp add: divide_le_eq)
    with z e 1(4) show ?thesis by (simp add: pw_def)
  qed
qed

lemma floor_log_bounds:
  assumes "2 \<le> b" "0 < a"
  shows "pw b (floor_log b a) \<le> a \<and> a < pw b (floor_log b a + 1)"
  using assms log_up_bounds [of b a] log_down_bounds [of b a]
  by (cases "1 \<le> a") (simp_all add: floor_log_def)

lemma floor_log_nonneg: "2 \<le> b \<Longrightarrow> 1 \<le> a \<Longrightarrow> 0 \<le> floor_log b a"
  using log_up_bounds [of b a] by (simp add: floor_log_def)

lemma floor_log_less:
  assumes "2 \<le> b" "0 < a" "a < pw b e"
  shows "floor_log b a < e"
proof -
  have "pw b (floor_log b a) \<le> a" using floor_log_bounds [OF assms(1,2)] by simp
  with assms(3) have "pw b (floor_log b a) < pw b e" by simp
  then show ?thesis using assms(1) by (rule pw_less_imp [rotated])
qed

lemma floor_log_ge:
  assumes "2 \<le> b" "0 < a" "pw b e \<le> a"
  shows "e \<le> floor_log b a"
proof -
  have "a < pw b (floor_log b a + 1)" using floor_log_bounds [OF assms(1,2)] by simp
  with assms(3) have "pw b e < pw b (floor_log b a + 1)" by simp
  then have "e < floor_log b a + 1" using assms(1) by (rule pw_less_imp [rotated])
  then show ?thesis by simp
qed


lemma pw_add: "0 < b \<Longrightarrow> pw b (e + e') = pw b e * pw b e'"
  by (simp add: pw_powi power_int_add)

lemma pw_numeral [simp]: "pw b (numeral n) = of_nat b ^ numeral n"
  by (simp add: pw_def)

lemma pw_zero [simp]: "pw b 0 = 1"
  by (simp add: pw_def)

lemma round_half_even_int [simp]: "round_half_even (of_int z) = z"
  by (simp add: round_half_even_def)

lemma round_half_even_ge_floor: "\<lfloor>a\<rfloor> \<le> round_half_even a"
  by (simp add: round_half_even_def)

lemma round_half_even_le: "of_int (round_half_even a) \<le> a + 1"
proof -
  have "round_half_even a \<le> \<lfloor>a\<rfloor> + 1" by (simp add: round_half_even_def)
  then have "(of_int (round_half_even a) :: rat) \<le> of_int (\<lfloor>a\<rfloor> + 1)"
    by (simp only: of_int_le_iff)
  also have "\<dots> \<le> a + 1" by simp
  finally show ?thesis .
qed

lemma fround_nat_exact:
  assumes "m < 2 ^ 53"
  shows "fround (of_nat m) = Fin (of_nat m)"
proof (cases "m = 0")
  case True
  then show ?thesis by (simp add: fround_def)
next
  case False
  let ?a = "of_nat m :: rat"
  let ?e = "floor_log 2 ?a"
  let ?q = "max (?e - 52) (- 1074)"
  have a0: "0 < ?a" using False by simp
  have "?a < pw 2 53" using assms by (simp add: of_nat_less_iff [of m "2 ^ 53", where ?'a = rat, simplified])
  then have "?e < 53" using a0 by (intro floor_log_less) simp_all
  then have q: "?q \<le> 0" by simp
  have pq: "pw 2 ?q = 1 / 2 ^ nat (- ?q)" using q by (simp add: pw_def)
  have "?a / pw 2 ?q = of_int (int m * 2 ^ nat (- ?q))" by (simp add: pq)
  then have r: "round_half_even (\<bar>?a\<bar> / pw 2 ?q) = int m * 2 ^ nat (- ?q)"
    by (simp only: abs_of_nat round_half_even_int)
  have y: "of_int (round_half_even (\<bar>?a\<bar> / pw 2 ?q)) * pw 2 ?q = ?a"
    by (simp only: r) (simp add: pq)
  have "\<not> pw 2 1024 \<le> ?a"
  proof -
    have "?a < 2 ^ 53" using assms by (simp add: of_nat_less_iff [of m "2 ^ 53", where ?'a = rat, simplified])
    also have "\<dots> < (2::rat) ^ 1024" by simp
    finally show ?thesis by simp
  qed
  then have "round_at ?a ?q = Fin ?a"
    using a0 by (simp only: round_at_def y pack_def) simp
  then show ?thesis using False by (simp add: fround_def)
qed

lemma fround_nat_large:
  assumes "2 ^ 53 \<le> m" "fround (of_nat m) = Fin y"
  shows "2 ^ 53 \<le> y"
proof -
  let ?a = "of_nat m :: rat"
  let ?e = "floor_log 2 ?a"
  have m53: "(2::rat) ^ 53 \<le> ?a"
    using assms(1) by (simp add: of_nat_le_iff [of "2 ^ 53" m, where ?'a = rat, simplified])
  then have a0: "0 < ?a" by (rule less_le_trans [rotated]) simp
  have e53: "53 \<le> ?e" using a0 m53 by (intro floor_log_ge) simp_all
  then have q: "max (?e - 52) (- 1074) = ?e - 52" by simp
  have split: "pw 2 ?e = pw 2 (?e - 52) * pw 2 52"
    using pw_add [of 2 "?e - 52" 52] by simp
  have p0: "0 < pw 2 (?e - 52)" by (simp add: pw_pos)
  have "pw 2 ?e \<le> ?a" using floor_log_bounds [of 2 ?a] a0 by simp
  then have "pw 2 52 \<le> ?a / pw 2 (?e - 52)"
    using p0 by (simp add: split le_divide_eq mult.commute)
  then have "(of_int (2 ^ 52) :: rat) \<le> ?a / pw 2 (?e - 52)" by simp
  then have "2 ^ 52 \<le> \<lfloor>?a / pw 2 (?e - 52)\<rfloor>" by (simp only: le_floor_iff)
  then have "2 ^ 52 \<le> round_half_even (?a / pw 2 (?e - 52))"
    using round_half_even_ge_floor [of "?a / pw 2 (?e - 52)"] by linarith
  then have "(of_int (2 ^ 52) :: rat) \<le> of_int (round_half_even (?a / pw 2 (?e - 52)))"
    by (simp only: of_int_le_iff)
  then have "(2::rat) ^ 52 * pw 2 (?e - 52) \<le>
      of_int (round_half_even (?a / pw 2 (?e - 52))) * pw 2 (?e - 52)"
    using p0 by simp
  moreover have "(2::rat) ^ 52 * pw 2 (?e - 52) = pw 2 ?e" by (simp add: split)
  moreover have "pw 2 53 \<le> pw 2 ?e" using e53 by (intro pw_mono) simp_all
  ultimately have big: "(2::rat) ^ 53 \<le>
      of_int (round_half_even (?a / pw 2 (?e - 52))) * pw 2 (?e - 52)" by simp
  have "fround ?a = pack ?a (of_int (round_half_even (?a / pw 2 (?e - 52))) * pw 2 (?e - 52))"
    using a0 q by (simp add: fround_def round_at_def)
  with assms(2) have "pack ?a (of_int (round_half_even (?a / pw 2 (?e - 52))) * pw 2 (?e - 52)) = Fin y"
    by simp
  then have "y = of_int (round_half_even (?a / pw 2 (?e - 52))) * pw 2 (?e - 52)"
    using a0 by (simp add: pack_def split: if_splits)
  with big show ?thesis by simp
qed

lemma fround_nat_eq:
  assumes "fround (of_nat m) = Fin (of_nat n)" "n < 2 ^ 53"
  shows "m = n"
proof (cases "m < 2 ^ 53")
  case True
  then have "fround (of_nat m) = Fin (of_nat m)" by (rule fround_nat_exact)
  with assms(1) show ?thesis by simp
next
  case False
  then have "2 ^ 53 \<le> m" by simp
  then have "(2::rat) ^ 53 \<le> of_nat n" using assms(1) by (rule fround_nat_large)
  then have "2 ^ 53 \<le> n" by (simp add: of_nat_le_iff [of "2 ^ 53" n, where ?'a = rat, simplified])
  with assms(2) show ?thesis by simp
qed

lemma dec_times_10:
  assumes "0 < s"
  shows "dec (s * 10 ^ j) = dec s @ replicate j (digit 0)"
proof (induction j)
  case 0
  then show ?case by simp
next
  case (Suc j)
  have "\<not> s * 10 ^ Suc j < 10" using assms by simp
  then have "dec (s * 10 ^ Suc j) = dec ((s * 10 ^ Suc j) div 10) @ [digit ((s * 10 ^ Suc j) mod 10)]"
    by (subst dec.simps) simp
  also have "(s * 10 ^ Suc j) div 10 = s * 10 ^ j" by simp
  also have "(s * 10 ^ Suc j) mod 10 = 0" by simp
  finally show ?case using Suc by (simp add: replicate_append_same)
qed


lemma pick_SomeD: "pick x e s = Some t \<Longrightarrow> cand_ok x e t \<and> (t = s \<or> t = s + 1)"
  by (auto simp: pick_def split: if_splits)

lemma pick_exact:
  assumes "is_double (of_nat n)"
  shows "pick (of_nat n) 0 (lo_digits (of_nat n) 0) \<noteq> None"
proof -
  have l: "lo_digits (of_nat n) 0 = n" by (simp add: lo_digits_def)
  have "cand_ok (of_nat n) 0 n" using assms by (simp add: cand_ok_def is_double_def)
  then show ?thesis by (auto simp: pick_def l)
qed

lemma shortest_result:
  "pick x 0 (lo_digits x 0) \<noteq> None \<Longrightarrow> int k \<le> N \<Longrightarrow>
    k \<le> snd (shortest x N k) \<and> int (snd (shortest x N k)) \<le> N \<and>
    (pick x (N - int (snd (shortest x N k))) (lo_digits x (N - int (snd (shortest x N k))))
       = Some (fst (shortest x N k)) \<or>
     (17 \<le> snd (shortest x N k) \<and>
      fst (shortest x N k) = lo_digits x (N - int (snd (shortest x N k)))))"
proof (induction x N k rule: shortest.induct)
  case (1 x n k)
  show ?case
  proof (cases "pick x (n - int k) (lo_digits x (n - int k))")
    case (Some s)
    then have "shortest x n k = (s, k)" by (subst shortest.simps) simp
    with Some 1(3) show ?thesis by simp
  next
    case None
    with 1(2) have "n - int k \<noteq> 0" by auto
    with 1(3) have lt: "int (k + 1) \<le> n" by simp
    show ?thesis
    proof (cases "17 \<le> k")
      case True
      with None have "shortest x n k = (lo_digits x (n - int k), k)"
        by (subst shortest.simps) simp
      with True 1(3) show ?thesis by simp
    next
      case False
      with None have e: "shortest x n k = shortest x n (k + 1)"
        by (subst shortest.simps) simp
      have "k + 1 \<le> snd (shortest x n (k + 1)) \<and> int (snd (shortest x n (k + 1))) \<le> n \<and>
        (pick x (n - int (snd (shortest x n (k + 1)))) (lo_digits x (n - int (snd (shortest x n (k + 1)))))
           = Some (fst (shortest x n (k + 1))) \<or>
         (17 \<le> snd (shortest x n (k + 1)) \<and>
          fst (shortest x n (k + 1)) = lo_digits x (n - int (snd (shortest x n (k + 1))))))"
        using 1(1) [OF None False 1(2) lt] .
      then show ?thesis by (simp only: e) simp
    qed
  qed
qed

text \<open>The number of digits of a positive integer.\<close>

lemma digits_bounds:
  assumes "1 \<le> n"
  shows "1 \<le> floor_log 10 (of_nat n) + 1"
    and "of_nat n < pw 10 (floor_log 10 (of_nat n) + 1)"
    and "pw 10 (floor_log 10 (of_nat n)) \<le> of_nat n"
proof -
  have a: "(1::rat) \<le> of_nat n" using assms by simp
  then have a0: "(0::rat) < of_nat n" by simp
  show "1 \<le> floor_log 10 (of_nat n) + 1" using floor_log_nonneg [of 10 "of_nat n"] a by simp
  show "of_nat n < pw 10 (floor_log 10 (of_nat n) + 1)"
    using floor_log_bounds [of 10 "of_nat n"] a0 by simp
  show "pw 10 (floor_log 10 (of_nat n)) \<le> of_nat n"
    using floor_log_bounds [of 10 "of_nat n"] a0 by simp
qed

lemma lo_digits_less:
  assumes "0 \<le> x" "x < pw 10 N" "int k \<le> N"
  shows "lo_digits x (N - int k) < 10 ^ k"
proof -
  have p: "0 < pw 10 (N - int k)" by (simp add: pw_pos)
  have "pw 10 N = pw 10 (int k) * pw 10 (N - int k)"
    using pw_add [of 10 "int k" "N - int k"] by simp
  with assms(2) p have "x / pw 10 (N - int k) < pw 10 (int k)"
    by (simp add: divide_less_eq)
  then have "x / pw 10 (N - int k) < of_int (10 ^ k)" by (simp add: pw_nat)
  then have "\<lfloor>x / pw 10 (N - int k)\<rfloor> < 10 ^ k" by (simp only: floor_less_iff)
  then show ?thesis by (simp add: lo_digits_def)
qed

lemma zero_js [simp]: "js ''0'' = [digit 0]"
  by (simp add: js_def digit_def)

lemma dec_0: "dec 0 = [digit 0]"
  by (simp add: dec.simps)

lemma positive_string_safe:
  assumes "1 \<le> n" "n < 2 ^ 53"
  shows "positive_string (of_nat n) = dec n"
proof -
  let ?x = "of_nat n :: rat"
  let ?N = "floor_log 10 ?x + 1"
  let ?s = "fst (shortest ?x ?N 1)"
  let ?k = "snd (shortest ?x ?N 1)"
  have x0: "(0::rat) < ?x" using assms(1) by simp
  have N1: "1 \<le> ?N" and xN: "?x < pw 10 ?N" using digits_bounds [OF assms(1)] by simp_all
  have "?x < 2 ^ 53" using assms(2) by (simp add: of_nat_less_iff [of n "2 ^ 53", where ?'a = rat, simplified])
  also have "(2::rat) ^ 53 < pw 10 16" by simp
  finally have "floor_log 10 ?x < 16" using x0 by (intro floor_log_less) simp_all
  then have N16: "?N \<le> 16" by simp
  have dbl: "is_double ?x" using fround_nat_exact [OF assms(2)] by (simp add: is_double_def)
  have sr: "1 \<le> ?k \<and> int ?k \<le> ?N \<and>
      (pick ?x (?N - int ?k) (lo_digits ?x (?N - int ?k)) = Some ?s \<or>
       (17 \<le> ?k \<and> ?s = lo_digits ?x (?N - int ?k)))"
    using shortest_result [OF pick_exact [OF dbl], of 1 ?N] N1 by simp
  then have kN: "int ?k \<le> ?N" by simp
  with N16 have "\<not> 17 \<le> ?k" by simp
  with sr have "pick ?x (?N - int ?k) (lo_digits ?x (?N - int ?k)) = Some ?s" by simp
  then have "cand_ok ?x (?N - int ?k) ?s" by (simp add: pick_SomeD)
  then have c: "fround (of_nat ?s * pw 10 (?N - int ?k)) = Fin ?x" by (simp add: cand_ok_def)
  have e: "pw 10 (?N - int ?k) = of_nat (10 ^ nat (?N - int ?k))"
    using kN by (simp add: pw_def)
  have "fround (of_nat (?s * 10 ^ nat (?N - int ?k))) = Fin (of_nat n)"
    using c by (simp only: e of_nat_mult)
  then have val: "?s * 10 ^ nat (?N - int ?k) = n" using assms(2) by (rule fround_nat_eq)
  with assms(1) have s0: "0 < ?s" by (cases "?s = 0") auto
  have ne: "?s \<noteq> 10 ^ ?k"
  proof
    assume "?s = 10 ^ ?k"
    with val have "n = 10 ^ (?k + nat (?N - int ?k))" by (simp add: power_add)
    also have "?k + nat (?N - int ?k) = nat ?N" using kN by simp
    finally have "?x = pw 10 ?N" using N1 by (simp add: pw_def)
    with xN show False by simp
  qed
  have "positive_string ?x = layout (dec ?s) ?k ?N"
    using ne by (simp add: positive_string_def normal_form_def)
  also have "\<dots> = dec ?s @ replicate (nat (?N - int ?k)) (digit 0)"
    using kN N1 N16 by (simp add: layout_def)
  also have "\<dots> = dec (?s * 10 ^ nat (?N - int ?k))" using s0 by (simp add: dec_times_10)
  finally show ?thesis by (simp only: val)
qed

lemma NumberToString_safe_int:
  assumes "\<bar>z\<bar> < 2 ^ 53"
  shows "NumberToString (Fin (of_int z)) = (if z < 0 then js ''-'' else []) @ dec (nat \<bar>z\<bar>)"
proof -
  consider "z = 0" | "0 < z" | "z < 0" by linarith
  then show ?thesis
  proof cases
    case 1
    then show ?thesis by (simp add: dec_0)
  next
    case 2
    then have "1 \<le> nat z" "nat z < 2 ^ 53" using assms by simp_all
    then have "positive_string (of_nat (nat z)) = dec (nat z)" by (rule positive_string_safe)
    with 2 show ?thesis by simp
  next
    case 3
    then have "1 \<le> nat (- z)" "nat (- z) < 2 ^ 53" using assms by simp_all
    then have "positive_string (of_nat (nat (- z))) = dec (nat (- z))" by (rule positive_string_safe)
    with 3 show ?thesis by simp
  qed
qed

lemmas round_eval = fround_def round_at_def pack_def round_half_even_def floor_log_def
  log_up.simps log_down.simps pw_def

lemmas string_eval = positive_string_def normal_form_def layout_def exponent_part_def
  shortest.simps pick_def cand_ok_def closer_lo_def lo_digits_def dec.simps digit_def js_def

lemma fround_1e21: "fround (10 ^ 21) = Fin (10 ^ 21)"
  by (simp add: round_eval)

lemma positive_string_digits:
  assumes "1 \<le> n" "of_nat n < (10::rat) ^ 21" "is_double (of_nat n)"
  shows "list_all is_digit (positive_string (of_nat n))"
proof -
  let ?x = "of_nat n :: rat"
  let ?N = "floor_log 10 ?x + 1"
  let ?s = "fst (shortest ?x ?N 1)"
  let ?k = "snd (shortest ?x ?N 1)"
  have x0: "(0::rat) < ?x" using assms(1) by simp
  have N1: "1 \<le> ?N" and xN: "?x < pw 10 ?N" using digits_bounds [OF assms(1)] by simp_all
  have "?x < pw 10 21" using assms(2) by simp
  then have "floor_log 10 ?x < 21" using x0 by (intro floor_log_less) simp_all
  then have N21: "?N \<le> 21" by simp
  have sr: "1 \<le> ?k \<and> int ?k \<le> ?N \<and>
      (pick ?x (?N - int ?k) (lo_digits ?x (?N - int ?k)) = Some ?s \<or>
       (17 \<le> ?k \<and> ?s = lo_digits ?x (?N - int ?k)))"
    using shortest_result [OF pick_exact [OF assms(3)], of 1 ?N] N1 by simp
  then have kN: "int ?k \<le> ?N" by simp
  have z: "is_digit (digit 0)" by (simp add: digit_is_digit)
  show ?thesis
  proof (cases "?s = 10 ^ ?k")
    case False
    then have ps: "positive_string ?x = dec ?s @ replicate (nat (?N - int ?k)) (digit 0)"
      using kN N1 N21 by (simp add: positive_string_def normal_form_def layout_def)
    have "list_all is_digit (dec ?s @ replicate (nat (?N - int ?k)) (digit 0))"
      using z dec_digits [of ?s] by (auto simp: list_all_iff)
    then show ?thesis by (simp only: ps)
  next
    case True
    have lo: "lo_digits ?x (?N - int ?k) < 10 ^ ?k"
      using x0 xN kN by (intro lo_digits_less) simp_all
    with True sr have p: "pick ?x (?N - int ?k) (lo_digits ?x (?N - int ?k)) = Some ?s" by auto
    then have c: "cand_ok ?x (?N - int ?k) ?s" by (simp add: pick_SomeD)
    have N20: "?N \<le> 20"
    proof (rule ccontr)
      assume "\<not> ?N \<le> 20"
      with N21 have N: "?N = 21" by simp
      have "of_nat ?s * pw 10 (?N - int ?k) = pw 10 (int ?k) * pw 10 (?N - int ?k)"
        using True by (simp add: pw_nat)
      also have "\<dots> = pw 10 ?N" using pw_add [of 10 "int ?k" "?N - int ?k"] by simp
      also have "\<dots> = 10 ^ 21" by (simp only: N) simp
      finally have "fround (10 ^ 21) = Fin ?x" using c by (simp add: cand_ok_def)
      then have "Fin ((10::rat) ^ 21) = Fin ?x" by (simp only: fround_1e21)
      then have "(10::rat) ^ 21 = ?x" by (simp only: number.inject)
      with assms(2) show False by simp
    qed
    have ps: "positive_string ?x = dec (10 ^ (?k - 1)) @ replicate (nat (?N + 1 - int ?k)) (digit 0)"
      using True kN N1 N20 by (simp add: positive_string_def normal_form_def layout_def)
    have "list_all is_digit (dec (10 ^ (?k - 1)) @ replicate (nat (?N + 1 - int ?k)) (digit 0))"
      using z dec_digits [of "10 ^ (?k - 1)"] by (auto simp: list_all_iff)
    then show ?thesis by (simp only: ps)
  qed
qed

lemma pack_neg: "r \<noteq> 0 \<Longrightarrow> pack r y = Fin s \<Longrightarrow> pack (- r) y = Fin (- s)"
  by (auto simp: pack_def split: if_splits)

lemma fround_neg:
  assumes "fround r = Fin s"
  shows "fround (- r) = Fin (- s)"
proof (cases "r = 0")
  case True
  with assms show ?thesis by (simp add: fround_def)
next
  case False
  let ?q = "max (floor_log 2 \<bar>r\<bar> - 52) (- 1074)"
  let ?y = "of_int (round_half_even (\<bar>r\<bar> / pw 2 ?q)) * pw 2 ?q"
  have "pack r ?y = Fin s" using assms False by (simp add: fround_def round_at_def)
  with False have "pack (- r) ?y = Fin (- s)" by (rule pack_neg)
  then show ?thesis using False by (simp add: fround_def round_at_def)
qed

lemma layout_not_Nil: "ds \<noteq> [] \<Longrightarrow> layout ds k n \<noteq> []"
  by (simp add: layout_def js_def)

lemma positive_string_not_Nil: "positive_string x \<noteq> []"
  by (simp add: positive_string_def normal_form_def layout_not_Nil)

lemma NumberToString_int_digits:
  assumes "\<bar>of_int z\<bar> < (10::rat) ^ 21" "is_double (of_int z)"
  shows "\<exists>ds. NumberToString (Fin (of_int z)) = (if z < 0 then js ''-'' else []) @ ds \<and>
              ds \<noteq> [] \<and> list_all is_digit ds"
proof -
  consider "z = 0" | "0 < z" | "z < 0" by linarith
  then show ?thesis
  proof cases
    case 1
    then show ?thesis using digit_is_digit [of 0] by simp
  next
    case 2
    have e: "(of_int z :: rat) = of_nat (nat z)" using 2 by simp
    have "list_all is_digit (positive_string (of_nat (nat z)))"
    proof (rule positive_string_digits)
      show "1 \<le> nat z" using 2 by simp
      show "of_nat (nat z) < (10::rat) ^ 21" using assms(1) 2 by (simp only: e [symmetric])
      show "is_double (of_nat (nat z))" using assms(2) by (simp only: e [symmetric])
    qed
    then have "list_all is_digit (positive_string (of_int z))" by (simp only: e [symmetric])
    moreover have "NumberToString (Fin (of_int z)) = positive_string (of_int z)"
      using 2 by simp
    ultimately show ?thesis using 2 positive_string_not_Nil [of "of_int z"] by simp
  next
    case 3
    have e: "(- of_int z :: rat) = of_nat (nat (- z))" using 3 by simp
    have "fround (of_int z) = Fin (of_int z)" using assms(2) by (simp add: is_double_def)
    then have "fround (- of_int z) = Fin (- of_int z)" by (rule fround_neg)
    then have dbl: "is_double (of_nat (nat (- z)))" by (simp only: is_double_def e)
    have "list_all is_digit (positive_string (of_nat (nat (- z))))"
    proof (rule positive_string_digits)
      show "1 \<le> nat (- z)" using 3 by simp
      show "of_nat (nat (- z)) < (10::rat) ^ 21" using assms(1) 3 by (simp only: e [symmetric])
      show "is_double (of_nat (nat (- z)))" by (rule dbl)
    qed
    then have "list_all is_digit (positive_string (- of_int z))" by (simp only: e [symmetric])
    moreover have "NumberToString (Fin (of_int z)) = js ''-'' @ positive_string (- of_int z)"
      using 3 by simp
    ultimately show ?thesis using 3 positive_string_not_Nil [of "- of_int z"] by simp
  qed
qed

lemma fround_finite:
  assumes "\<bar>r\<bar> < 2 ^ 1000"
  shows "\<exists>y. fround r = Fin y"
proof (cases "r = 0")
  case True
  then show ?thesis by (simp add: fround_def)
next
  case False
  let ?a = "\<bar>r\<bar>"
  let ?q = "max (floor_log 2 ?a - 52) (- 1074)"
  have a0: "0 < ?a" using False by simp
  have "?a < pw 2 1000" using assms by simp
  then have "floor_log 2 ?a < 1000" using a0 by (intro floor_log_less) simp_all
  then have "?q \<le> 947" by simp
  then have "pw 2 ?q \<le> pw 2 947" by (intro pw_mono) simp_all
  then have q: "pw 2 ?q \<le> 2 ^ 947" by simp
  have p: "0 < pw 2 ?q" by (simp add: pw_pos)
  have "of_int (round_half_even (?a / pw 2 ?q)) * pw 2 ?q \<le> (?a / pw 2 ?q + 1) * pw 2 ?q"
    using round_half_even_le [of "?a / pw 2 ?q"] p by (simp only: mult_le_cancel_right_pos)
  also have "\<dots> = ?a + pw 2 ?q" using p by (simp add: distrib_right)
  also have "\<dots> < 2 ^ 1000 + 2 ^ 947" using assms q by simp
  also have "\<dots> < (2::rat) ^ 1024" by simp
  finally have "\<not> pw 2 1024 \<le> of_int (round_half_even (?a / pw 2 ?q)) * pw 2 ?q" by simp
  then show ?thesis using False by (simp add: fround_def round_at_def pack_def)
qed

lemma pi_1: "fround (314159 / 100000) = Fin (3537115888337719 / 1125899906842624)"
  by (simp add: round_eval)

lemma pi_4: "NumberToString (Fin (7074254294673575 / 2251799813685248)) = js ''3.1416''"
  by (simp add: round_eval string_eval)

lemma big_1: "NumberToString (Fin (15 * 10 ^ 20)) = js ''1.5e+21''"
  by (simp add: round_eval string_eval)

lemma big_2: "is_double (15 * 10 ^ 20)"
  by (simp add: is_double_def round_eval)


lemma pi_cell:
  "formatCell tbl (Num (fround (314159 / 100000))) (Str (js ''misc'')) = Inr (js ''3.1416'')"
proof -
  have n: "\<not> isInteger (Fin (3537115888337719 / 1125899906842624))" by simp
  have s1: "num_times (Fin (3537115888337719 / 1125899906842624)) (Fin 10000)
      = Fin (8635536836762009 / 274877906944)"
    by (simp add: round_eval)
  have s2: "Math_round (Fin (8635536836762009 / 274877906944)) = Fin 31416" by simp
  have s3: "num_divide (Fin 31416) (Fin 10000) = Fin (7074254294673575 / 2251799813685248)"
    by (simp add: round_eval)
  show ?thesis
    using n
    by (simp only: pi_1 formatCell_no_rule [OF lower_key_misc no_rule_misc] s1 s2 s3 pi_4 if_False)
qed

section \<open>Facts about the search key and the options\<close>

lemmas str_eval = buildSearchKey_def normalizeText_def js_def toLowerCase_def latin1_def
  lower_latin1_def isWhiteSpace_def trim_def forms_def first_part_def last_part_def Let_def

lemma includes_str_Nil [simp]: "includes_str s []"
  by (cases s) auto

lemma results_length: "results xs = Inr ys \<Longrightarrow> length ys = length xs"
  by (induction xs arbitrary: ys) (auto split: sum.splits)

lemma results_all:
  "\<forall>x\<in>set xs. f x = Inr (g x) \<Longrightarrow> results (map f xs) = Inr (map g xs)"
  by (induction xs) auto

lemma results_raises:
  "x \<in> set xs \<Longrightarrow> f x = Inl e \<Longrightarrow> \<exists>e'. results (map f xs) = Inl e'"
  by (induction xs) (auto split: sum.splits)

lemma take_filter_nth:
  assumes "i < length xs" "P (xs ! i)" "length (filter P (take i xs)) < n"
  shows "xs ! i \<in> set (take n (filter P xs))"
proof -
  let ?A = "filter P (take i xs)"
  let ?B = "filter P (drop (Suc i) xs)"
  have "xs = take i xs @ xs ! i # drop (Suc i) xs"
    using assms(1) by (rule id_take_nth_drop)
  then have "filter P xs = filter P (take i xs @ xs ! i # drop (Suc i) xs)"
    by simp
  then have f: "filter P xs = ?A @ xs ! i # ?B"
    using assms(2) by simp
  have l: "length ?A < length (take n (filter P xs))"
    using assms(3) by (simp add: f)
  have "take n (filter P xs) ! length ?A = (?A @ xs ! i # ?B) ! length ?A"
    using assms(3) by (simp only: f nth_take)
  also have "\<dots> = xs ! i" by (rule nth_append_length)
  finally have "take n (filter P xs) ! length ?A = xs ! i" .
  with l show ?thesis by (metis nth_mem)
qed

lemma opts_length: "opts tbl options q = Inr r \<Longrightarrow> length r \<le> 150"
  by (auto simp: opts_def Let_def split: sum.splits if_splits)

text \<open>The options when every candidate has a key and the query a normalized text.\<close>

lemma opts_returns:
  assumes "\<forall>c\<in>set cands. \<exists>k. buildSearchKey tbl c = Inr k"
    and "normalizeText tbl q = Inr qq"
  shows "\<exists>r. opts tbl (Some cands) q = Inr r \<and>
             map name r =
               (if qq = [] then take 150 cands
                else take 150 (filter (key_includes tbl qq) cands))"
proof -
  let ?f = "\<lambda>c. case buildSearchKey tbl c of
                   Inl e \<Rightarrow> Inl e
                 | Inr k \<Rightarrow> Inr \<lparr>name = c, key = k\<rparr>"
  let ?g = "\<lambda>c. \<lparr>name = c, key = projr (buildSearchKey tbl c)\<rparr>"
  have "\<forall>c\<in>set cands. ?f c = Inr (?g c)"
    using assms(1) by auto
  then have r: "results (map ?f cands) = Inr (map ?g cands)"
    by (rule results_all)
  have m: "filter (\<lambda>c. includes_str (projr (buildSearchKey tbl c)) qq) cands =
           filter (key_includes tbl qq) cands"
    using assms(1) by (intro filter_cong) (auto simp: key_includes_def)
  have o: "opts tbl (Some cands) q =
           Inr (if qq = [] then take 150 (map ?g cands)
                else take 150 (filter (\<lambda>op. includes_str (key op) qq) (map ?g cands)))"
    by (simp add: opts_def r assms(2) Let_def)
  have "map name (if qq = [] then take 150 (map ?g cands)
                  else take 150 (filter (\<lambda>op. includes_str (key op) qq) (map ?g cands))) =
        (if qq = [] then take 150 cands else take 150 (filter (key_includes tbl qq) cands))"
    by (simp add: take_map filter_map comp_def m)
  with o show ?thesis by blast
qed

lemma opts_raises_key:
  assumes "c \<in> set cands" "buildSearchKey tbl c = Inl e"
  shows "\<exists>e'. opts tbl (Some cands) q = Inl e'"
proof -
  let ?f = "\<lambda>c. case buildSearchKey tbl c of
                   Inl e \<Rightarrow> Inl e
                 | Inr k \<Rightarrow> Inr \<lparr>name = c, key = k\<rparr>"
  have "?f c = Inl e" using assms(2) by simp
  with assms(1) obtain e' where "results (map ?f cands) = Inl e'"
    using results_raises [of c cands ?f e] by blast
  then show ?thesis by (simp add: opts_def)
qed

lemma opts_raises_query:
  assumes "normalizeText tbl q = Inl e"
  shows "\<exists>e'. opts tbl (Some cands) q = Inl e'"
  using assms by (simp add: opts_def split: sum.splits)

lemma key_ab: "buildSearchKey tbl (Str (js ''ab'')) = Inr (js ''ab | ab | ab | ab | ab'')"
  by (simp add: str_eval)

lemma key_abc: "buildSearchKey tbl (Str (js ''abc'')) = Inr (js ''abc | abc | abc | abc | abc'')"
  by (simp add: str_eval)

lemma norm_a: "normalizeText tbl (Str (js ''a'')) = Inr (js ''a'')"
  by (simp add: str_eval)

lemma key_rg:
  "buildSearchKey tbl (Str (js ''RG Sharma'')) =
     Inr (js ''rg sharma | sharma rg | sharma | rg | rgsharma'')"
  by (simp add: str_eval)

lemma key_vk:
  "buildSearchKey tbl (Str (js ''V Kohli'')) = Inr (js ''v kohli | kohli v | kohli | v | vkohli'')"
  by (simp add: str_eval)

lemma norm_sharma: "normalizeText tbl (Str (js ''Sharma'')) = Inr (js ''sharma'')"
  by (simp add: str_eval)

lemma norm_blank: "normalizeText tbl (Str (js '' '')) = Inr []"
  by (simp add: str_eval)

section \<open>Facts about the conversion to a string\<close>

lemma results_Inr_iff:
  "(\<exists>ys. results (map f xs) = Inr ys) \<longleftrightarrow> (\<forall>x\<in>set xs. \<exists>y. f x = Inr y)"
  by (induction xs) (auto split: sum.splits)

lemma results_InlD: "results (map f xs) = Inl e \<Longrightarrow> \<exists>x\<in>set xs. f x = Inl e"
  by (induction xs) (auto split: sum.splits)

lemma convertible_iff: "convertible v \<longleftrightarrow> (\<exists>s. ToString v = Inr s)"
proof (induction v)
  case (Arr xs)
  let ?f = "\<lambda>x. if x = Undefined \<or> x = Null then Inr [] else ToString x"
  have "(\<exists>s. ToString (Arr xs) = Inr s) \<longleftrightarrow> (\<exists>ss. results (map ?f xs) = Inr ss)"
    by (auto split: sum.splits)
  also have "\<dots> \<longleftrightarrow> (\<forall>x\<in>set xs. \<exists>y. ?f x = Inr y)"
    by (rule results_Inr_iff)
  also have "\<dots> \<longleftrightarrow> (\<forall>x\<in>set xs. convertible x)"
    using Arr by auto
  finally show ?case by (simp add: list_all_iff)
qed simp_all

lemma ToString_error: "ToString v = Inl e \<Longrightarrow> e = TypeError"
proof (induction v)
  case (Arr xs)
  let ?f = "\<lambda>x. if x = Undefined \<or> x = Null then Inr [] else ToString x"
  from Arr.prems have "results (map ?f xs) = Inl e"
    by (auto split: sum.splits)
  then obtain x where "x \<in> set xs" "?f x = Inl e"
    using results_InlD [of ?f xs e] by blast
  with Arr.IH [of x] show ?case by (auto split: if_splits)
qed (auto split: if_splits)

lemma not_convertible: "\<not> convertible v \<Longrightarrow> ToString v = Inl TypeError"
proof -
  assume a: "\<not> convertible v"
  then obtain e where e: "ToString v = Inl e"
    using convertible_iff [of v] by (cases "ToString v") auto
  then show ?thesis using ToString_error by blast
qed

lemma not_convertible_shape:
  "\<not> convertible v \<Longrightarrow> truthy v \<and> v \<noteq> Null \<and> v \<noteq> Undefined \<and> (\<forall>x. v \<noteq> Num x)"
  by (cases v) auto

lemma lower_key_total: "convertible k \<Longrightarrow> \<exists>kk. lower_key tbl k = Inr kk"
  using convertible_iff [of k] by (cases "k = Undefined") (auto simp: lower_key_def)

lemma lower_key_raises: "\<not> convertible k \<Longrightarrow> lower_key tbl k = Inl TypeError"
  using not_convertible [of k] not_convertible_shape [of k] by (simp add: lower_key_def)

lemma formatCell_other:
  "v \<noteq> Null \<Longrightarrow> v \<noteq> Undefined \<Longrightarrow> \<forall>x. v \<noteq> Num x \<Longrightarrow> formatCell tbl v k = ToString v"
  by (cases v) (simp_all add: formatCell_def)

lemma formatCell_total:
  assumes "convertible v" "convertible k"
  shows "\<exists>s. formatCell tbl v k = Inr s"
proof (cases v)
  case (Num x)
  obtain kk where kk: "lower_key tbl k = Inr kk"
    using assms(2) lower_key_total by blast
  show ?thesis
    using toFixed_total [of 2 x] toFixed_total [of 1 x]
    by (auto simp: Num formatCell_Num [OF kk])
next
  case Undefined
  then show ?thesis by (simp add: formatCell_def)
next
  case Null
  then show ?thesis by (simp add: formatCell_def)
next
  case (Bool b)
  then show ?thesis by (simp add: formatCell_def)
next
  case (Str s)
  then show ?thesis by (simp add: formatCell_def)
next
  case (Arr xs)
  then show ?thesis using assms(1) convertible_iff [of v] by (simp add: formatCell_other)
next
  case (Obj fs)
  then show ?thesis using assms(1) convertible_iff [of v] by (simp add: formatCell_other)
qed

lemma normalizeText_total: "convertible v \<Longrightarrow> \<exists>n. normalizeText tbl v = Inr n"
  using convertible_iff [of v]
  by (cases "truthy v") (auto simp: normalizeText_truthy normalizeText_falsy)

lemma normalizeText_raises: "\<not> convertible v \<Longrightarrow> normalizeText tbl v = Inl TypeError"
  using not_convertible [of v] not_convertible_shape [of v] by (simp add: normalizeText_truthy)

section \<open>The claims\<close>

text \<open>
  Claim C1, as amended. For every number and every field key, \<open>formatCell\<close> applies
  the first rule that the lower-cased key matches, in this order: a key containing
  \<open>"econ"\<close> gives \<open>toFixed(2)\<close>; otherwise a key equal to \<open>"sr"\<close> or containing
  \<open>"sr_"\<close>, \<open>"_sr"\<close> or \<open>"strike"\<close> gives \<open>toFixed(1)\<close>; otherwise a key containing
  \<open>"dismiss"\<close>, otherwise one containing \<open>"wicket_pct"\<close>, otherwise one containing
  \<open>"share"\<close> gives \<open>toFixed(1)\<close>; a key that \<open>String\<close> cannot convert makes
  \<open>formatCell\<close> throw what \<open>String\<close> throws. For a finite number of magnitude below
  \<open>10 ^ 21\<close>, \<open>toFixed(2)\<close> has exactly 2 digits after the decimal point and
  \<open>toFixed(1)\<close> exactly 1. The key \<open>"econ_share"\<close> contains both \<open>"econ"\<close> and
  \<open>"share"\<close> and gets 2 decimals. (The digits are not there for every number: \<open>1e21\<close>
  under the key \<open>"econ"\<close> is \<open>"1e+21"\<close>, and \<open>NaN\<close> is \<open>"NaN"\<close>.)
\<close>

theorem formatCell_rules:
  "(lower_key tbl k = Inl e \<longrightarrow> formatCell tbl (Num x) k = Inl e) \<and>
   (lower_key tbl k = Inr kk \<and> includes_str kk (js ''econ'')
      \<longrightarrow> formatCell tbl (Num x) k = toFixed x 2) \<and>
   (lower_key tbl k = Inr kk \<and> \<not> includes_str kk (js ''econ'') \<and>
    (kk = js ''sr'' \<or> includes_str kk (js ''sr_'') \<or>
     includes_str kk (js ''_sr'') \<or> includes_str kk (js ''strike''))
      \<longrightarrow> formatCell tbl (Num x) k = toFixed x 1) \<and>
   (lower_key tbl k = Inr kk \<and> \<not> includes_str kk (js ''econ'') \<and>
    \<not> (kk = js ''sr'' \<or> includes_str kk (js ''sr_'') \<or>
       includes_str kk (js ''_sr'') \<or> includes_str kk (js ''strike'')) \<and>
    includes_str kk (js ''dismiss'')
      \<longrightarrow> formatCell tbl (Num x) k = toFixed x 1) \<and>
   (lower_key tbl k = Inr kk \<and> \<not> includes_str kk (js ''econ'') \<and>
    \<not> (kk = js ''sr'' \<or> includes_str kk (js ''sr_'') \<or>
       includes_str kk (js ''_sr'') \<or> includes_str kk (js ''strike'')) \<and>
    \<not> includes_str kk (js ''dismiss'') \<and>
    includes_str kk (js ''wicket_pct'')
      \<longrightarrow> formatCell tbl (Num x) k = toFixed x 1) \<and>
   (lower_key tbl k = Inr kk \<and> \<not> includes_str kk (js ''econ'') \<and>
    \<not> (kk = js ''sr'' \<or> includes_str kk (js ''sr_'') \<or>
       includes_str kk (js ''_sr'') \<or> includes_str kk (js ''strike'')) \<and>
    \<not> includes_str kk (js ''dismiss'') \<and>
    \<not> includes_str kk (js ''wicket_pct'') \<and>
    includes_str kk (js ''share'')
      \<longrightarrow> formatCell tbl (Num x) k = toFixed x 1) \<and>
   (\<bar>r\<bar> < 10 ^ 21 \<longrightarrow>
      (\<exists>s. toFixed (Fin r) 2 = Inr s \<and> has_decimals 2 s) \<and>
      (\<exists>s. toFixed (Fin r) 1 = Inr s \<and> has_decimals 1 s)) \<and>
   lower_key tbl (Str (js ''econ_share'')) = Inr (js ''econ_share'') \<and>
   includes_str (js ''econ_share'') (js ''econ'') \<and>
   includes_str (js ''econ_share'') (js ''share'') \<and>
   formatCell tbl (Num (Fin 50)) (Str (js ''econ_share'')) = Inr (js ''50.00'')"
proof -
  have d: "\<bar>r\<bar> < 10 ^ 21 \<longrightarrow>
      (\<exists>s. toFixed (Fin r) 2 = Inr s \<and> has_decimals 2 s) \<and>
      (\<exists>s. toFixed (Fin r) 1 = Inr s \<and> has_decimals 1 s)"
    using toFixed_decimals [of 2 r] toFixed_decimals [of 1 r] by simp
  have e1: "includes_str (js ''econ_share'') (js ''econ'')"
    by (simp add: js_def)
  have e2: "includes_str (js ''econ_share'') (js ''share'')"
    by (simp add: js_def)
  have e3: "formatCell tbl (Num (Fin 50)) (Str (js ''econ_share'')) = Inr (js ''50.00'')"
    unfolding formatCell_Num [OF lower_key_econ_share] using e1 by (simp add: fixed_eval)
  have r: "lower_key tbl k = Inl e \<longrightarrow> formatCell tbl (Num x) k = Inl e"
    using formatCell_Num_raises [of tbl k e x] by blast
  show ?thesis
  proof (cases "lower_key tbl k")
    case (Inl e')
    then show ?thesis
      using d e1 e2 e3 r lower_key_econ_share [of tbl] by simp
  next
    case (Inr kk')
    then show ?thesis
      using d e1 e2 e3 lower_key_econ_share [of tbl] by (simp add: formatCell_Num [OF Inr])
  qed
qed

theorem formatCell_rules_witness:
  "lower_key sample_table (Str (js ''econ'')) = Inr (js ''econ'') \<and>
   includes_str (js ''econ'') (js ''econ'') \<and>
   \<bar>15 / 2 :: rat\<bar> < 10 ^ 21 \<and>
   formatCell sample_table (Num (Fin (15 / 2))) (Str (js ''econ'')) = Inr (js ''7.50'') \<and>
   has_decimals 2 (js ''7.50'') \<and>
   lower_key sample_table (Str (js ''sr'')) = Inr (js ''sr'') \<and>
   \<not> includes_str (js ''sr'') (js ''econ'') \<and>
   formatCell sample_table (Num (Fin (4691237883720237 / 35184372088832))) (Str (js ''sr''))
     = Inr (js ''133.3'') \<and>
   has_decimals 1 (js ''133.3'') \<and>
   lower_key sample_table (Obj [(js ''toString'', Null)]) = Inl TypeError \<and>
   formatCell sample_table (Num (Fin 1)) (Obj [(js ''toString'', Null)]) = Inl TypeError"
proof -
  have a: "includes_str (js ''econ'') (js ''econ'')" by (simp add: js_def)
  have b: "\<not> includes_str (js ''sr'') (js ''econ'')" by (simp add: js_def)
  have c: "toFixed (Fin (15 / 2)) 2 = Inr (js ''7.50'')" by (simp add: fixed_eval)
  have d: "toFixed (Fin (4691237883720237 / 35184372088832)) 1 = Inr (js ''133.3'')"
    by (simp add: fixed_eval)
  have e: "\<bar>15 / 2 :: rat\<bar> < 10 ^ 21" "\<bar>4691237883720237 / 35184372088832 :: rat\<bar> < 10 ^ 21"
    by simp_all
  have f: "lower_key sample_table (Obj [(js ''toString'', Null)]) = Inl TypeError"
    by (simp add: lower_key_def)
  have g: "has_decimals 2 (js ''7.50'')" "has_decimals 1 (js ''133.3'')"
    by (simp_all add: has_decimals_def after_point_def is_digit_def js_def)
  show ?thesis
    using formatCell_rules [of sample_table "Str (js ''econ'')" _ "Fin (15 / 2)" "js ''econ''"
        "15 / 2"]
      formatCell_rules [of sample_table "Str (js ''sr'')" _
        "Fin (4691237883720237 / 35184372088832)" "js ''sr''"
        "4691237883720237 / 35184372088832"]
      formatCell_rules [of sample_table "Obj [(js ''toString'', Null)]" TypeError "Fin 1"]
      lower_key_econ [of sample_table] lower_key_sr [of sample_table]
      a b c d e f g
    by simp
qed

theorem formatCell_rules_counterexample:
  "is_double (10 ^ 21) \<and>
   lower_key sample_table (Str (js ''econ'')) = Inr (js ''econ'') \<and>
   includes_str (js ''econ'') (js ''econ'') \<and>
   formatCell sample_table (Num (Fin (10 ^ 21))) (Str (js ''econ'')) = Inr (js ''1e+21'') \<and>
   \<not> has_decimals 2 (js ''1e+21'')"
proof -
  have d: "is_double (10 ^ 21)" by (simp only: is_double_def fround_1e21)
  have t: "toFixed (Fin (10 ^ 21)) 2 = Inr (js ''1e+21'')"
    by (simp add: toFixed_def fixed_string_def round_eval string_eval)
  have k: "includes_str (js ''econ'') (js ''econ'')"
    by (simp add: js_def)
  have "formatCell sample_table (Num (Fin (10 ^ 21))) (Str (js ''econ'')) = Inr (js ''1e+21'')"
    using k by (simp only: formatCell_Num [OF lower_key_econ] t if_True)
  with d k lower_key_econ [of sample_table] show ?thesis
    by (simp add: has_decimals_def js_def)
qed

text \<open>
  Claim C2. For every name, \<open>buildSearchKey\<close> normalizes it (and throws what the
  normalization throws); an empty normalized name gives the empty key; otherwise the
  normalized name is split on single spaces into its non-empty tokens, of which there is
  at least one, and the key is the five strings \<open>firstLast\<close> (the tokens joined by single
  spaces), \<open>lastFirst\<close> (the last token, then all tokens but the last), the last token,
  the first token and \<open>compact\<close> (the tokens concatenated), joined in this order by
  \<open>" | "\<close>. A name that is a string always has a normalized name. The keys of
  \<open>"RG Sharma"\<close> and \<open>"Kohli"\<close> are the ones the specification gives.
\<close>

theorem buildSearchKey_forms:
  "(normalizeText tbl v = Inl e \<longrightarrow> buildSearchKey tbl v = Inl e) \<and>
   (normalizeText tbl v = Inr [] \<longrightarrow> buildSearchKey tbl v = Inr []) \<and>
   (normalizeText tbl v = Inr n \<and> n \<noteq> [] \<longrightarrow>
      filter (\<lambda>p. p \<noteq> []) (split 0x20 n) \<noteq> [] \<and>
      buildSearchKey tbl v =
        Inr (join (js '' | '')
          [join (js '' '') (filter (\<lambda>p. p \<noteq> []) (split 0x20 n)),
           join (js '' '')
             (last (filter (\<lambda>p. p \<noteq> []) (split 0x20 n)) #
              butlast (filter (\<lambda>p. p \<noteq> []) (split 0x20 n))),
           last (filter (\<lambda>p. p \<noteq> []) (split 0x20 n)),
           hd (filter (\<lambda>p. p \<noteq> []) (split 0x20 n)),
           concat (filter (\<lambda>p. p \<noteq> []) (split 0x20 n))])) \<and>
   (\<exists>m. normalizeText tbl (Str s) = Inr m) \<and>
   buildSearchKey tbl (Str (js ''RG Sharma'')) =
     Inr (js ''rg sharma | sharma rg | sharma | rg | rgsharma'') \<and>
   buildSearchKey tbl (Str (js ''Kohli'')) = Inr (js ''kohli | kohli | kohli | kohli | kohli'')"
proof (intro conjI impI)
  assume "normalizeText tbl v = Inl e"
  then show "buildSearchKey tbl v = Inl e" by (rule buildSearchKey_raises)
next
  assume "normalizeText tbl v = Inr []"
  then show "buildSearchKey tbl v = Inr []" by (simp add: buildSearchKey_def)
next
  assume a: "normalizeText tbl v = Inr n \<and> n \<noteq> []"
  then obtain t where t: "n = join [0x20] (text_words tbl t)"
    using normalizeText_InrD by blast
  with a have ne: "text_words tbl t \<noteq> []" by auto
  then show "filter (\<lambda>p. p \<noteq> []) (split 0x20 n) \<noteq> []"
    by (simp add: t parts_eq)
next
  assume a: "normalizeText tbl v = Inr n \<and> n \<noteq> []"
  then obtain t where t: "n = join [0x20] (text_words tbl t)"
    using normalizeText_InrD by blast
  with a have ne: "text_words tbl t \<noteq> []" by auto
  have k: "buildSearchKey tbl v = Inr (join (js '' | '') (forms (text_words tbl t)))"
    using a ne buildSearchKey_words [of tbl v t] by (simp add: t)
  show "buildSearchKey tbl v =
        Inr (join (js '' | '')
          [join (js '' '') (filter (\<lambda>p. p \<noteq> []) (split 0x20 n)),
           join (js '' '')
             (last (filter (\<lambda>p. p \<noteq> []) (split 0x20 n)) #
              butlast (filter (\<lambda>p. p \<noteq> []) (split 0x20 n))),
           last (filter (\<lambda>p. p \<noteq> []) (split 0x20 n)),
           hd (filter (\<lambda>p. p \<noteq> []) (split 0x20 n)),
           concat (filter (\<lambda>p. p \<noteq> []) (split 0x20 n))])"
    unfolding t parts_eq sp_js
    by (simp only: k forms_words [OF text_words_ok ne])
next
  show "\<exists>m. normalizeText tbl (Str s) = Inr m" by (simp add: normalizeText_Str)
next
  show "buildSearchKey tbl (Str (js ''RG Sharma'')) =
        Inr (js ''rg sharma | sharma rg | sharma | rg | rgsharma'')"
    by (simp add: str_eval)
next
  show "buildSearchKey tbl (Str (js ''Kohli'')) = Inr (js ''kohli | kohli | kohli | kohli | kohli'')"
    by (simp add: str_eval)
qed

theorem buildSearchKey_forms_witness:
  "normalizeText sample_table (Str []) = Inr [] \<and>
   buildSearchKey sample_table (Str []) = Inr [] \<and>
   normalizeText sample_table (Str (js ''MS  Dhoni'')) = Inr (js ''ms dhoni'') \<and>
   js ''ms dhoni'' \<noteq> [] \<and>
   buildSearchKey sample_table (Str (js ''MS  Dhoni'')) =
     Inr (js ''ms dhoni | dhoni ms | dhoni | ms | msdhoni'')"
proof -
  have a: "normalizeText sample_table (Str []) = Inr []"
    by (simp add: str_eval)
  have b: "normalizeText sample_table (Str (js ''MS  Dhoni'')) = Inr (js ''ms dhoni'')"
    by (simp add: str_eval)
  have c: "js ''ms dhoni'' \<noteq> []" by (simp add: js_def)
  have d: "buildSearchKey sample_table (Str (js ''MS  Dhoni'')) =
     Inr (js ''ms dhoni | dhoni ms | dhoni | ms | msdhoni'')"
    by (simp add: str_eval)
  show ?thesis
    using buildSearchKey_forms [of sample_table "Str []" _ "[]"]
      buildSearchKey_forms [of sample_table "Str (js ''MS  Dhoni'')" _ "js ''ms dhoni''"]
      a b c d
    by simp
qed

text \<open>
  Claim C3, as amended. For every list of candidates that have keys (as every string
  has) and every query that has a normalized text (as every string has), every candidate
  whose key contains the normalized query and that has fewer than 150 such candidates
  before it in the list is among the names of the options. (A matching candidate with
  150 matching candidates before it is cut off: of 150 candidates \<open>"ab"\<close> followed by
  \<open>"abc"\<close>, the query \<open>"a"\<close> matches all and \<open>"abc"\<close> is not in the result.)
\<close>

theorem opts_finds_matches:
  assumes "\<forall>c\<in>set cands. \<exists>k. buildSearchKey tbl c = Inr k"
    and "normalizeText tbl q = Inr qq"
    and "i < length cands"
    and "key_includes tbl qq (cands ! i)"
    and "length (filter (key_includes tbl qq) (take i cands)) < 150"
  shows "\<exists>r. opts tbl (Some cands) q = Inr r \<and> cands ! i \<in> set (map name r)"
proof -
  obtain r where r: "opts tbl (Some cands) q = Inr r"
    and n: "map name r =
              (if qq = [] then take 150 cands
               else take 150 (filter (key_includes tbl qq) cands))"
    using opts_returns [OF assms(1,2)] by blast
  have "qq = [] \<Longrightarrow> filter (key_includes tbl qq) cands = cands"
    using assms(1) by (auto simp: key_includes_def filter_id_conv)
  then have "map name r = take 150 (filter (key_includes tbl qq) cands)"
    using n by (cases "qq = []") simp_all
  moreover have "cands ! i \<in> set (take 150 (filter (key_includes tbl qq) cands))"
    using assms(3,4,5) by (rule take_filter_nth)
  ultimately have "cands ! i \<in> set (map name r)" by (simp only:)
  with r show ?thesis by blast
qed

theorem opts_finds_matches_witness:
  "buildSearchKey sample_table (Str (js ''V Kohli'')) =
     Inr (js ''v kohli | kohli v | kohli | v | vkohli'') \<and>
   buildSearchKey sample_table (Str (js ''RG Sharma'')) =
     Inr (js ''rg sharma | sharma rg | sharma | rg | rgsharma'') \<and>
   normalizeText sample_table (Str (js ''Sharma'')) = Inr (js ''sharma'') \<and>
   (1::nat) < length [Str (js ''V Kohli''), Str (js ''RG Sharma'')] \<and>
   key_includes sample_table (js ''sharma'') ([Str (js ''V Kohli''), Str (js ''RG Sharma'')] ! 1) \<and>
   length (filter (key_includes sample_table (js ''sharma''))
             (take 1 [Str (js ''V Kohli''), Str (js ''RG Sharma'')])) < 150 \<and>
   opts sample_table (Some [Str (js ''V Kohli''), Str (js ''RG Sharma'')]) (Str (js ''Sharma'')) =
     Inr [\<lparr>name = Str (js ''RG Sharma''),
           key = js ''rg sharma | sharma rg | sharma | rg | rgsharma''\<rparr>] \<and>
   Str (js ''RG Sharma'') \<in>
     set (map name [\<lparr>name = Str (js ''RG Sharma''),
                     key = js ''rg sharma | sharma rg | sharma | rg | rgsharma''\<rparr>])"
proof -
  have m1: "\<not> includes_str (js ''v kohli | kohli v | kohli | v | vkohli'') (js ''sharma'')"
    by (simp add: js_def)
  have m2: "includes_str (js ''rg sharma | sharma rg | sharma | rg | rgsharma'') (js ''sharma'')"
    by (simp add: js_def)
  have ne: "js ''sharma'' \<noteq> []" by (simp add: js_def)
  have o: "opts sample_table (Some [Str (js ''V Kohli''), Str (js ''RG Sharma'')])
      (Str (js ''Sharma'')) =
     Inr [\<lparr>name = Str (js ''RG Sharma''),
           key = js ''rg sharma | sharma rg | sharma | rg | rgsharma''\<rparr>]"
    using ne m1 m2 by (simp add: opts_def key_rg key_vk norm_sharma)
  have a: "\<forall>c\<in>set [Str (js ''V Kohli''), Str (js ''RG Sharma'')].
      \<exists>k. buildSearchKey sample_table c = Inr k"
    by (simp add: key_rg key_vk)
  have b: "key_includes sample_table (js ''sharma'')
      ([Str (js ''V Kohli''), Str (js ''RG Sharma'')] ! 1)"
    by (simp add: key_includes_def key_rg) (simp add: js_def)
  have c: "length (filter (key_includes sample_table (js ''sharma''))
             (take 1 [Str (js ''V Kohli''), Str (js ''RG Sharma'')])) < 150"
    by simp
  show ?thesis
    using opts_finds_matches [of "[Str (js ''V Kohli''), Str (js ''RG Sharma'')]" sample_table
        "Str (js ''Sharma'')" "js ''sharma''" 1, OF a norm_sharma _ b c]
      b c o norm_sharma [of sample_table] key_rg [of sample_table] key_vk [of sample_table]
    by simp
qed

theorem opts_finds_matches_counterexample:
  "normalizeText sample_table (Str (js ''a'')) = Inr (js ''a'') \<and> js ''a'' \<noteq> [] \<and>
   Str (js ''abc'') \<in> set (replicate 150 (Str (js ''ab'')) @ [Str (js ''abc'')]) \<and>
   buildSearchKey sample_table (Str (js ''abc'')) = Inr (js ''abc | abc | abc | abc | abc'') \<and>
   includes_str (js ''abc | abc | abc | abc | abc'') (js ''a'') \<and>
   opts sample_table (Some (replicate 150 (Str (js ''ab'')) @ [Str (js ''abc'')])) (Str (js ''a''))
     = Inr (replicate 150 \<lparr>name = Str (js ''ab''), key = js ''ab | ab | ab | ab | ab''\<rparr>) \<and>
   Str (js ''abc'') \<notin>
     set (map name (replicate 150 \<lparr>name = Str (js ''ab''), key = js ''ab | ab | ab | ab | ab''\<rparr>))"
proof -
  let ?f = "\<lambda>c. case buildSearchKey sample_table c of
                   Inl e \<Rightarrow> Inl e
                 | Inr k \<Rightarrow> Inr \<lparr>name = c, key = k\<rparr>"
  let ?a = "\<lparr>name = Str (js ''ab''), key = js ''ab | ab | ab | ab | ab''\<rparr>"
  let ?b = "\<lparr>name = Str (js ''abc''), key = js ''abc | abc | abc | abc | abc''\<rparr>"
  let ?g = "\<lambda>c. if c = Str (js ''ab'') then ?a else ?b"
  have m1: "includes_str (js ''ab | ab | ab | ab | ab'') (js ''a'')" by (simp add: js_def)
  have m2: "includes_str (js ''abc | abc | abc | abc | abc'') (js ''a'')" by (simp add: js_def)
  have ne: "js ''a'' \<noteq> []" by (simp add: js_def)
  have d: "Str (js ''abc'') \<noteq> Str (js ''ab'')" by (simp add: js_def)
  have "\<forall>c\<in>set (replicate 150 (Str (js ''ab'')) @ [Str (js ''abc'')]). ?f c = Inr (?g c)"
    using d by (simp add: key_ab key_abc)
  then have "results (map ?f (replicate 150 (Str (js ''ab'')) @ [Str (js ''abc'')])) =
             Inr (map ?g (replicate 150 (Str (js ''ab'')) @ [Str (js ''abc'')]))"
    by (rule results_all)
  also have "map ?g (replicate 150 (Str (js ''ab'')) @ [Str (js ''abc'')]) =
             replicate 150 ?a @ [?b]"
    using d by simp
  finally have "opts sample_table (Some (replicate 150 (Str (js ''ab'')) @ [Str (js ''abc'')]))
                  (Str (js ''a'')) = Inr (replicate 150 ?a)"
    using ne m1 m2 by (simp add: opts_def norm_a Let_def)
  with ne m2 d show ?thesis by (simp add: norm_a key_abc)
qed

text \<open>
  Claim C4. For every candidate list and every query there are at most 150 options.
  When every candidate has a key and the query a normalized text (as every string has):
  when the normalized query is empty, the options are the first 150 candidates (all of
  them when there are fewer), in their order and unfiltered; otherwise they are the
  candidates whose key contains the normalized query, in their order, cut to the first
  150. When the key of a candidate or the normalized query throws, there are no options:
  the computation throws.
\<close>

theorem opts_at_most_150:
  "(opts tbl options q = Inr r \<longrightarrow> length r \<le> 150) \<and>
   ((\<forall>c\<in>set cands. \<exists>k. buildSearchKey tbl c = Inr k) \<and> normalizeText tbl q = Inr [] \<longrightarrow>
      (\<exists>r. opts tbl (Some cands) q = Inr r \<and> map name r = take 150 cands)) \<and>
   ((\<forall>c\<in>set cands. \<exists>k. buildSearchKey tbl c = Inr k) \<and> normalizeText tbl q = Inr qq \<and> qq \<noteq> [] \<longrightarrow>
      (\<exists>r. opts tbl (Some cands) q = Inr r \<and>
           map name r = take 150 (filter (key_includes tbl qq) cands))) \<and>
   ((\<exists>c\<in>set cands. \<exists>e. buildSearchKey tbl c = Inl e) \<or> (\<exists>e. normalizeText tbl q = Inl e) \<longrightarrow>
      (\<exists>e. opts tbl (Some cands) q = Inl e)) \<and>
   (\<exists>k. buildSearchKey tbl (Str s) = Inr k) \<and> (\<exists>m. normalizeText tbl (Str s) = Inr m)"
proof (intro conjI impI)
  assume "opts tbl options q = Inr r"
  then show "length r \<le> 150" by (rule opts_length)
next
  assume "(\<forall>c\<in>set cands. \<exists>k. buildSearchKey tbl c = Inr k) \<and> normalizeText tbl q = Inr []"
  then show "\<exists>r. opts tbl (Some cands) q = Inr r \<and> map name r = take 150 cands"
    using opts_returns [of cands tbl q "[]"] by simp
next
  assume "(\<forall>c\<in>set cands. \<exists>k. buildSearchKey tbl c = Inr k) \<and> normalizeText tbl q = Inr qq \<and>
          qq \<noteq> []"
  then show "\<exists>r. opts tbl (Some cands) q = Inr r \<and>
           map name r = take 150 (filter (key_includes tbl qq) cands)"
    using opts_returns [of cands tbl q qq] by simp
next
  assume "(\<exists>c\<in>set cands. \<exists>e. buildSearchKey tbl c = Inl e) \<or> (\<exists>e. normalizeText tbl q = Inl e)"
  then show "\<exists>e. opts tbl (Some cands) q = Inl e"
    using opts_raises_key opts_raises_query by blast
next
  show "\<exists>k. buildSearchKey tbl (Str s) = Inr k" by (rule buildSearchKey_Str_total)
next
  show "\<exists>m. normalizeText tbl (Str s) = Inr m" by (simp add: normalizeText_Str)
qed

theorem opts_at_most_150_witness:
  "buildSearchKey sample_table (Str (js ''V Kohli'')) =
     Inr (js ''v kohli | kohli v | kohli | v | vkohli'') \<and>
   buildSearchKey sample_table (Str (js ''RG Sharma'')) =
     Inr (js ''rg sharma | sharma rg | sharma | rg | rgsharma'') \<and>
   normalizeText sample_table (Str (js '' '')) = Inr [] \<and>
   opts sample_table (Some [Str (js ''V Kohli''), Str (js ''RG Sharma'')]) (Str (js '' '')) =
     Inr [\<lparr>name = Str (js ''V Kohli''), key = js ''v kohli | kohli v | kohli | v | vkohli''\<rparr>,
          \<lparr>name = Str (js ''RG Sharma''),
           key = js ''rg sharma | sharma rg | sharma | rg | rgsharma''\<rparr>] \<and>
   normalizeText sample_table (Str (js ''Sharma'')) = Inr (js ''sharma'') \<and>
   js ''sharma'' \<noteq> [] \<and>
   opts sample_table (Some [Str (js ''V Kohli''), Str (js ''RG Sharma'')]) (Str (js ''Sharma'')) =
     Inr [\<lparr>name = Str (js ''RG Sharma''),
           key = js ''rg sharma | sharma rg | sharma | rg | rgsharma''\<rparr>] \<and>
   length [\<lparr>name = Str (js ''RG Sharma''),
            key = js ''rg sharma | sharma rg | sharma | rg | rgsharma''\<rparr>] \<le> 150"
proof -
  have a: "\<forall>c\<in>set [Str (js ''V Kohli''), Str (js ''RG Sharma'')].
      \<exists>k. buildSearchKey sample_table c = Inr k"
    by (simp add: key_rg key_vk)
  have b: "js ''sharma'' \<noteq> []" by (simp add: js_def)
  have m1: "\<not> includes_str (js ''v kohli | kohli v | kohli | v | vkohli'') (js ''sharma'')"
    by (simp add: js_def)
  have m2: "includes_str (js ''rg sharma | sharma rg | sharma | rg | rgsharma'') (js ''sharma'')"
    by (simp add: js_def)
  have o1: "opts sample_table (Some [Str (js ''V Kohli''), Str (js ''RG Sharma'')])
      (Str (js '' '')) =
     Inr [\<lparr>name = Str (js ''V Kohli''), key = js ''v kohli | kohli v | kohli | v | vkohli''\<rparr>,
          \<lparr>name = Str (js ''RG Sharma''),
           key = js ''rg sharma | sharma rg | sharma | rg | rgsharma''\<rparr>]"
    using norm_blank [of sample_table] by (simp add: opts_def key_rg key_vk)
  have o2: "opts sample_table (Some [Str (js ''V Kohli''), Str (js ''RG Sharma'')])
      (Str (js ''Sharma'')) =
     Inr [\<lparr>name = Str (js ''RG Sharma''),
           key = js ''rg sharma | sharma rg | sharma | rg | rgsharma''\<rparr>]"
    using b m1 m2 by (simp add: opts_def key_rg key_vk norm_sharma)
  show ?thesis
    using opts_at_most_150 [of sample_table "Some [Str (js ''V Kohli''), Str (js ''RG Sharma'')]"
        "Str (js ''Sharma'')" _ "[Str (js ''V Kohli''), Str (js ''RG Sharma'')]" "js ''sharma''"]
      a b o1 o2 norm_blank [of sample_table] norm_sharma [of sample_table]
      key_rg [of sample_table] key_vk [of sample_table]
    by simp
qed

text \<open>
  Claim C5, as amended. For every string, \<open>normalizeText\<close> lower-cases it, collapses
  every run of white space to one space and trims: the result is the words of the
  lower-cased string joined by single spaces. A value that counts as false (\<open>undefined\<close>,
  \<open>null\<close>, \<open>false\<close>, \<open>0\<close>, \<open>NaN\<close>, the empty string) gives the empty string; any
  other value is normalized as the string \<open>String\<close> converts it to, and what \<open>String\<close>
  throws is thrown. (So not every value other than a string gives the empty string:
  \<open>true\<close> gives \<open>"true"\<close>.)
\<close>

theorem normalizeText_words_of:
  "normalizeText tbl (Str s) = Inr (join (js '' '') (words_of (toLowerCase tbl s))) \<and>
   normalizeText tbl (Str s) = Inr (trim (replace_ws (toLowerCase tbl s))) \<and>
   (\<not> truthy v \<longrightarrow> normalizeText tbl v = Inr []) \<and>
   (truthy v \<and> ToString v = Inr t \<longrightarrow> normalizeText tbl v = normalizeText tbl (Str t)) \<and>
   (truthy v \<and> ToString v = Inl e \<longrightarrow> normalizeText tbl v = Inl e) \<and>
   normalizeText tbl Undefined = Inr [] \<and> normalizeText tbl Null = Inr [] \<and>
   normalizeText tbl (Bool False) = Inr [] \<and> normalizeText tbl (Num (Fin 0)) = Inr [] \<and>
   normalizeText tbl (Num NaN) = Inr [] \<and> normalizeText tbl (Str []) = Inr []"
proof -
  have f: "normalizeText tbl v = Inr []" if "\<not> truthy v" for v
    using that by (rule normalizeText_falsy)
  have t: "normalizeText tbl v = normalizeText tbl (Str t)" if "truthy v" "ToString v = Inr t"
    using that by (simp add: normalizeText_truthy normalizeText_Str)
  have r: "normalizeText tbl v = Inl e" if "truthy v" "ToString v = Inl e"
    using that by (simp add: normalizeText_truthy)
  have s: "normalizeText tbl (Str s) = Inr (join (js '' '') (words_of (toLowerCase tbl s)))"
    by (simp add: normalizeText_Str text_words_def)
  show ?thesis
    using f [of v] t r f [of Undefined] f [of Null] f [of "Bool False"] f [of "Num (Fin 0)"]
      f [of "Num NaN"] f [of "Str []"] s
    by (simp add: trim_replace_ws)
qed

theorem normalizeText_words_of_witness:
  "normalizeText sample_table (Str (js '' RG   Sharma '')) = Inr (js ''rg sharma'') \<and>
   \<not> truthy Null \<and> normalizeText sample_table Null = Inr [] \<and>
   truthy (Arr [Str (js ''A''), Str (js ''b'')]) \<and>
   ToString (Arr [Str (js ''A''), Str (js ''b'')]) = Inr (js ''A,b'') \<and>
   normalizeText sample_table (Arr [Str (js ''A''), Str (js ''b'')]) = Inr (js ''a,b'') \<and>
   truthy (Obj [(js ''toString'', Null)]) \<and>
   ToString (Obj [(js ''toString'', Null)]) = Inl TypeError \<and>
   normalizeText sample_table (Obj [(js ''toString'', Null)]) = Inl TypeError"
proof -
  have a: "ToString (Arr [Str (js ''A''), Str (js ''b'')]) = Inr (js ''A,b'')"
    by (simp add: js_def)
  have b: "ToString (Obj [(js ''toString'', Null)]) = Inl TypeError"
    by simp
  show ?thesis
    using normalizeText_words_of [of sample_table "js '' RG   Sharma ''" Null]
      normalizeText_words_of [of sample_table "[]" "Arr [Str (js ''A''), Str (js ''b'')]"
        "js ''A,b''"]
      normalizeText_words_of [of sample_table "[]" "Obj [(js ''toString'', Null)]" _ TypeError]
      a b
    by (simp add: str_eval)
qed

theorem normalizeText_nonstring_counterexample:
  "normalizeText sample_table (Bool True) = Inr (js ''true'') \<and>
   normalizeText sample_table (Bool True) \<noteq> Inr []"
  by (simp add: str_eval)

text \<open>
  Claim C6. For every key, \<open>formatCell\<close> gives the empty string for \<open>null\<close> and
  \<open>undefined\<close>; \<open>fmt\<close> gives the em dash for them and is \<open>formatCell\<close> for any other
  value; \<open>fmtPct\<close> gives the em dash, with no percent sign, for them, and for any other
  value the string that \<open>formatCell\<close> returns followed by \<open>"%"\<close> (and throws what
  \<open>formatCell\<close> throws).
\<close>

theorem absent_values:
  "formatCell tbl Null k = Inr [] \<and> formatCell tbl Undefined k = Inr [] \<and>
   fmt tbl Null k = Inr em_dash \<and> fmt tbl Undefined k = Inr em_dash \<and>
   fmtPct tbl Null k = Inr em_dash \<and> fmtPct tbl Undefined k = Inr em_dash \<and>
   0x25 \<notin> set em_dash \<and>
   (v \<noteq> Null \<and> v \<noteq> Undefined \<longrightarrow>
      fmt tbl v k = formatCell tbl v k \<and>
      (formatCell tbl v k = Inr s \<longrightarrow> fmtPct tbl v k = Inr (s @ js ''%'')) \<and>
      (formatCell tbl v k = Inl e \<longrightarrow> fmtPct tbl v k = Inl e))"
  by (simp add: formatCell_def fmt_def fmtPct_def em_dash_def)

theorem absent_values_witness:
  "fmt sample_table Null (Str (js ''sr'')) = Inr em_dash \<and>
   fmtPct sample_table Null (Str (js ''sr'')) = Inr em_dash \<and>
   Num (Fin (3473401212609495 / 281474976710656)) \<noteq> Null \<and>
   Num (Fin (3473401212609495 / 281474976710656)) \<noteq> Undefined \<and>
   formatCell sample_table (Num (Fin (3473401212609495 / 281474976710656)))
     (Str (js ''wicket_pct_per_start'')) = Inr (js ''12.3'') \<and>
   fmt sample_table (Num (Fin (3473401212609495 / 281474976710656)))
     (Str (js ''wicket_pct_per_start'')) = Inr (js ''12.3'') \<and>
   fmtPct sample_table (Num (Fin (3473401212609495 / 281474976710656)))
     (Str (js ''wicket_pct_per_start'')) = Inr (js ''12.3%'') \<and>
   Obj [(js ''toString'', Null)] \<noteq> Null \<and> Obj [(js ''toString'', Null)] \<noteq> Undefined \<and>
   formatCell sample_table (Obj [(js ''toString'', Null)]) (Str (js ''sr'')) = Inl TypeError \<and>
   fmtPct sample_table (Obj [(js ''toString'', Null)]) (Str (js ''sr'')) = Inl TypeError"
proof -
  have a: "formatCell sample_table (Obj [(js ''toString'', Null)]) (Str (js ''sr''))
      = Inl TypeError"
    by (simp add: formatCell_def)
  show ?thesis
    using absent_values [of sample_table "Str (js ''sr'')" Null]
      absent_values [of sample_table "Str (js ''wicket_pct_per_start'')"
        "Num (Fin (3473401212609495 / 281474976710656))" "js ''12.3''"]
      absent_values [of sample_table "Str (js ''sr'')" "Obj [(js ''toString'', Null)]" _
        TypeError]
      cell_twelve [of sample_table] a
    by (simp add: js_def)
qed

text \<open>
  Claim C7, as amended. Under a key that matches none of the five naming rules,
  \<open>formatCell\<close> renders an integer of magnitude below \<open>2 ^ 53\<close> as its decimal digits
  (after \<open>"-"\<close> when it is negative), and any integer-valued double of magnitude below
  \<open>10 ^ 21\<close> as a string of decimal digits only (after \<open>"-"\<close> when it is negative),
  with no decimal point; a finite number \<open>r\<close> that is not an integer, of magnitude below
  \<open>10 ^ 21\<close>, is rendered as \<open>String\<close> of the double nearest to \<open>N / 10000\<close>, where
  \<open>N\<close> is the integer nearest to the double nearest to \<open>10000 * r\<close>: a point of the
  four-decimal grid. \<open>formatCell(10, "runs")\<close> is \<open>"10"\<close> and
  \<open>formatCell(3.14159, "misc")\<close> is \<open>"3.1416"\<close>. (An integer from \<open>10 ^ 21\<close> on is
  printed in exponent notation: \<open>1.5e21\<close> is rendered \<open>"1.5e+21"\<close>, with a decimal point.)
\<close>

theorem formatCell_last_rule:
  "(lower_key tbl k = Inr kk \<and> no_naming_rule kk \<longrightarrow>
      (\<bar>z\<bar> < 2 ^ 53 \<longrightarrow>
         formatCell tbl (Num (Fin (of_int z))) k =
           Inr ((if z < 0 then js ''-'' else []) @ dec (nat \<bar>z\<bar>))) \<and>
      (\<bar>of_int z\<bar> < (10::rat) ^ 21 \<and> is_double (of_int z) \<longrightarrow>
         (\<exists>ds. formatCell tbl (Num (Fin (of_int z))) k =
                 Inr ((if z < 0 then js ''-'' else []) @ ds) \<and>
               ds \<noteq> [] \<and> list_all is_digit ds)) \<and>
      (of_int \<lfloor>r\<rfloor> \<noteq> r \<and> \<bar>r\<bar> < 10 ^ 21 \<longrightarrow>
         (\<exists>y. fround (r * 10000) = Fin y \<and>
              formatCell tbl (Num (Fin r)) k =
                Inr (NumberToString (fround (of_int \<lfloor>y + 1 / 2\<rfloor> / 10000)))))) \<and>
   lower_key tbl (Str (js ''runs'')) = Inr (js ''runs'') \<and>
   no_naming_rule (js ''runs'') \<and>
   formatCell tbl (Num (Fin 10)) (Str (js ''runs'')) = Inr (js ''10'') \<and>
   lower_key tbl (Str (js ''misc'')) = Inr (js ''misc'') \<and>
   no_naming_rule (js ''misc'') \<and>
   formatCell tbl (Num (fround (314159 / 100000))) (Str (js ''misc'')) = Inr (js ''3.1416'')"
proof -
  have a: "formatCell tbl (Num (Fin (of_int z))) k =
           Inr ((if z < 0 then js ''-'' else []) @ dec (nat \<bar>z\<bar>))"
    if "lower_key tbl k = Inr kk" "no_naming_rule kk" "\<bar>z\<bar> < 2 ^ 53" for k kk z
  proof -
    have "isInteger (Fin (of_int z))" by simp
    then have "formatCell tbl (Num (Fin (of_int z))) k = Inr (NumberToString (Fin (of_int z)))"
      by (simp only: formatCell_no_rule [OF that(1,2)] if_True)
    then show ?thesis by (simp only: NumberToString_safe_int [OF that(3)])
  qed
  have b: "\<exists>ds. formatCell tbl (Num (Fin (of_int z))) k =
                 Inr ((if z < 0 then js ''-'' else []) @ ds) \<and>
               ds \<noteq> [] \<and> list_all is_digit ds"
    if "lower_key tbl k = Inr kk" "no_naming_rule kk"
      "\<bar>of_int z\<bar> < (10::rat) ^ 21" "is_double (of_int z)"
    using NumberToString_int_digits [OF that(3,4)] by (simp add: formatCell_no_rule [OF that(1,2)])
  have c: "\<exists>y. fround (r * 10000) = Fin y \<and>
              formatCell tbl (Num (Fin r)) k =
                Inr (NumberToString (fround (of_int \<lfloor>y + 1 / 2\<rfloor> / 10000)))"
    if "lower_key tbl k = Inr kk" "no_naming_rule kk" "of_int \<lfloor>r\<rfloor> \<noteq> r" "\<bar>r\<bar> < 10 ^ 21"
  proof -
    have "\<bar>r * 10000\<bar> < 10 ^ 21 * 10000" using that(4) by (simp add: abs_mult)
    also have "\<dots> < (2::rat) ^ 1000" by simp
    finally obtain y where y: "fround (r * 10000) = Fin y" using fround_finite by blast
    then have "formatCell tbl (Num (Fin r)) k =
        Inr (NumberToString (fround (of_int \<lfloor>y + 1 / 2\<rfloor> / 10000)))"
      using that(3) by (simp add: formatCell_no_rule [OF that(1,2)])
    with y show ?thesis by blast
  qed
  have ten: "formatCell tbl (Num (Fin 10)) (Str (js ''runs'')) = Inr (js ''10'')"
    using a [OF lower_key_runs no_rule_runs, of 10] by (simp add: dec.simps digit_def js_def)
  show ?thesis
    using a [of k kk z] b c lower_key_runs [of tbl] lower_key_misc [of tbl]
      no_rule_runs no_rule_misc ten pi_cell [of tbl] by blast
qed

theorem formatCell_last_rule_witness:
  "lower_key sample_table (Str (js ''runs'')) = Inr (js ''runs'') \<and>
   no_naming_rule (js ''runs'') \<and>
   \<bar>42 :: int\<bar> < 2 ^ 53 \<and>
   formatCell sample_table (Num (Fin 42)) (Str (js ''runs'')) = Inr (js ''42'') \<and>
   \<bar>42 :: rat\<bar> < 10 ^ 21 \<and> is_double 42 \<and>
   list_all is_digit (js ''42'') \<and>
   of_int \<lfloor>1 / 2 :: rat\<rfloor> \<noteq> (1 / 2 :: rat) \<and> \<bar>1 / 2 :: rat\<bar> < 10 ^ 21 \<and>
   (\<exists>y. fround (1 / 2 * 10000) = Fin y \<and>
        formatCell sample_table (Num (Fin (1 / 2))) (Str (js ''runs'')) =
          Inr (NumberToString (fround (of_int \<lfloor>y + 1 / 2\<rfloor> / 10000))))"
proof -
  have d: "is_double 42" by (simp add: is_double_def round_eval)
  have h: "\<bar>42 :: int\<bar> < 2 ^ 53" "\<bar>of_int 42\<bar> < (10::rat) ^ 21" "is_double (of_int 42)"
    "of_int \<lfloor>1 / 2 :: rat\<rfloor> \<noteq> (1 / 2 :: rat)" "\<bar>1 / 2 :: rat\<bar> < 10 ^ 21"
    using d by simp_all
  have e: "dec 42 = js ''42''" by (simp add: dec.simps digit_def js_def)
  show ?thesis
    using formatCell_last_rule [of sample_table "Str (js ''runs'')" "js ''runs''" 42 "1 / 2"]
      h d e
    by (simp add: is_digit_def js_def)
qed

theorem formatCell_last_rule_counterexample:
  "lower_key sample_table (Str (js ''runs'')) = Inr (js ''runs'') \<and>
   no_naming_rule (js ''runs'') \<and>
   isInteger (Fin (15 * 10 ^ 20)) \<and> is_double (15 * 10 ^ 20) \<and>
   formatCell sample_table (Num (Fin (15 * 10 ^ 20))) (Str (js ''runs'')) = Inr (js ''1.5e+21'') \<and>
   0x2E \<in> set (js ''1.5e+21'')"
proof -
  have i: "isInteger (Fin (15 * 10 ^ 20))" by simp
  then have "formatCell sample_table (Num (Fin (15 * 10 ^ 20))) (Str (js ''runs'')) =
             Inr (js ''1.5e+21'')"
    by (simp only: formatCell_no_rule [OF lower_key_runs no_rule_runs] big_1 if_True)
  with i big_2 no_rule_runs lower_key_runs [of sample_table] show ?thesis by (simp add: js_def)
qed



text \<open>
  Claim C9, as amended. The five functions complete without raising for every input
  that \<open>String\<close> converts without throwing: \<open>undefined\<close>, \<open>null\<close>, every boolean,
  number and string, every plain object with no property \<open>toString\<close> of its own, and
  every array whose elements are of this kind (for \<open>formatCell\<close>, \<open>fmt\<close> and \<open>fmtPct\<close>,
  the value and the key both). A search-key input that counts as false gives the empty
  string and the empty key, and any other one is treated as the string \<open>String\<close>
  converts it to; a formatter input that is neither absent nor a number is converted by
  \<open>String\<close>, and a number under a key that matches no rule falls through to the last
  rule. A value or a name that \<open>String\<close> does not convert makes them throw a
  \<open>TypeError\<close>, and so does such a key under a number. (So they do raise: for the
  object decoded from \<open>{"toString": 1}\<close>, as a value, a key or a name; and a search-key
  input other than a string is not always coerced to the empty string: the key of the
  object decoded from \<open>{}\<close> is built from \<open>"[object Object]"\<close>.)
\<close>

theorem never_raise:
  "(convertible v \<longleftrightarrow> (\<exists>s. ToString v = Inr s)) \<and>
   (convertible v \<and> convertible k \<longrightarrow>
      (\<exists>s. formatCell tbl v k = Inr s) \<and> (\<exists>s. fmt tbl v k = Inr s) \<and>
      (\<exists>s. fmtPct tbl v k = Inr s)) \<and>
   (convertible v \<longrightarrow>
      (\<exists>s. normalizeText tbl v = Inr s) \<and> (\<exists>s. buildSearchKey tbl v = Inr s)) \<and>
   (\<not> truthy v \<longrightarrow> normalizeText tbl v = Inr [] \<and> buildSearchKey tbl v = Inr []) \<and>
   (truthy v \<and> ToString v = Inr t \<longrightarrow>
      normalizeText tbl v = normalizeText tbl (Str t) \<and>
      buildSearchKey tbl v = buildSearchKey tbl (Str t)) \<and>
   (v \<noteq> Null \<and> v \<noteq> Undefined \<and> (\<forall>x. v \<noteq> Num x) \<longrightarrow> formatCell tbl v k = ToString v) \<and>
   (lower_key tbl k = Inr kk \<and> no_naming_rule kk \<longrightarrow>
      formatCell tbl (Num x) k =
        Inr (if isInteger x then NumberToString x
             else NumberToString (num_divide (Math_round (num_times x (Fin 10000))) (Fin 10000)))) \<and>
   (\<not> convertible v \<longrightarrow>
      formatCell tbl v k = Inl TypeError \<and> fmt tbl v k = Inl TypeError \<and>
      fmtPct tbl v k = Inl TypeError \<and> normalizeText tbl v = Inl TypeError \<and>
      buildSearchKey tbl v = Inl TypeError) \<and>
   (\<not> convertible k \<longrightarrow>
      formatCell tbl (Num x) k = Inl TypeError \<and> fmt tbl (Num x) k = Inl TypeError \<and>
      fmtPct tbl (Num x) k = Inl TypeError)"
proof -
  have 1: "(\<exists>s. formatCell tbl v k = Inr s) \<and> (\<exists>s. fmt tbl v k = Inr s) \<and>
           (\<exists>s. fmtPct tbl v k = Inr s)"
    if cv: "convertible v" and ck: "convertible k"
  proof -
    obtain s where "formatCell tbl v k = Inr s"
      using cv ck formatCell_total by blast
    then show ?thesis by (simp add: fmt_def fmtPct_def)
  qed
  have 2: "(\<exists>s. normalizeText tbl v = Inr s) \<and> (\<exists>s. buildSearchKey tbl v = Inr s)"
    if cv: "convertible v"
  proof -
    obtain n where "normalizeText tbl v = Inr n"
      using cv normalizeText_total by blast
    then show ?thesis by (simp add: buildSearchKey_def)
  qed
  have 3: "normalizeText tbl v = Inr [] \<and> buildSearchKey tbl v = Inr []" if "\<not> truthy v"
    using that by (simp add: buildSearchKey_def normalizeText_falsy)
  have 4: "normalizeText tbl v = normalizeText tbl (Str t) \<and>
           buildSearchKey tbl v = buildSearchKey tbl (Str t)"
    if "truthy v" "ToString v = Inr t"
  proof -
    have n: "normalizeText tbl v = normalizeText tbl (Str t)"
      using that by (simp add: normalizeText_truthy normalizeText_Str)
    then have "buildSearchKey tbl v = buildSearchKey tbl (Str t)"
      by (rule buildSearchKey_same)
    with n show ?thesis by blast
  qed
  have 5: "formatCell tbl v k = ToString v"
    if "v \<noteq> Null \<and> v \<noteq> Undefined \<and> (\<forall>x. v \<noteq> Num x)"
    using that by (simp add: formatCell_other)
  have 6: "formatCell tbl v k = Inl TypeError \<and> fmt tbl v k = Inl TypeError \<and>
      fmtPct tbl v k = Inl TypeError \<and> normalizeText tbl v = Inl TypeError \<and>
      buildSearchKey tbl v = Inl TypeError"
    if "\<not> convertible v"
  proof -
    have s: "v \<noteq> Null \<and> v \<noteq> Undefined \<and> (\<forall>x. v \<noteq> Num x)"
      using that not_convertible_shape by blast
    then have f: "formatCell tbl v k = Inl TypeError"
      using that by (simp add: formatCell_other not_convertible)
    have n: "normalizeText tbl v = Inl TypeError"
      using that by (rule normalizeText_raises)
    show ?thesis using s f n by (simp add: fmt_def fmtPct_def buildSearchKey_def)
  qed
  have 7: "formatCell tbl (Num x) k = Inl TypeError \<and> fmt tbl (Num x) k = Inl TypeError \<and>
      fmtPct tbl (Num x) k = Inl TypeError"
    if "\<not> convertible k"
  proof -
    have "lower_key tbl k = Inl TypeError"
      using that by (rule lower_key_raises)
    then have "formatCell tbl (Num x) k = Inl TypeError"
      by (rule formatCell_Num_raises)
    then show ?thesis by (simp add: fmt_def fmtPct_def)
  qed
  have c1: "convertible v \<and> convertible k \<longrightarrow>
      (\<exists>s. formatCell tbl v k = Inr s) \<and> (\<exists>s. fmt tbl v k = Inr s) \<and>
      (\<exists>s. fmtPct tbl v k = Inr s)"
    using 1 by blast
  have c2: "convertible v \<longrightarrow>
      (\<exists>s. normalizeText tbl v = Inr s) \<and> (\<exists>s. buildSearchKey tbl v = Inr s)"
    using 2 by blast
  have c3: "\<not> truthy v \<longrightarrow> normalizeText tbl v = Inr [] \<and> buildSearchKey tbl v = Inr []"
    using 3 by blast
  have c4: "truthy v \<and> ToString v = Inr t \<longrightarrow>
      normalizeText tbl v = normalizeText tbl (Str t) \<and>
      buildSearchKey tbl v = buildSearchKey tbl (Str t)"
    using 4 by blast
  have c5: "v \<noteq> Null \<and> v \<noteq> Undefined \<and> (\<forall>x. v \<noteq> Num x) \<longrightarrow> formatCell tbl v k = ToString v"
    using 5 by blast
  have c6: "lower_key tbl k = Inr kk \<and> no_naming_rule kk \<longrightarrow>
      formatCell tbl (Num x) k =
        Inr (if isInteger x then NumberToString x
             else NumberToString (num_divide (Math_round (num_times x (Fin 10000))) (Fin 10000)))"
    using formatCell_no_rule [of tbl k kk x] by blast
  have c7: "\<not> convertible v \<longrightarrow>
      formatCell tbl v k = Inl TypeError \<and> fmt tbl v k = Inl TypeError \<and>
      fmtPct tbl v k = Inl TypeError \<and> normalizeText tbl v = Inl TypeError \<and>
      buildSearchKey tbl v = Inl TypeError"
    using 6 by blast
  have c8: "\<not> convertible k \<longrightarrow>
      formatCell tbl (Num x) k = Inl TypeError \<and> fmt tbl (Num x) k = Inl TypeError \<and>
      fmtPct tbl (Num x) k = Inl TypeError"
    using 7 by blast
  from convertible_iff [of v] c1 c2 c3 c4 c5 c6 c7 c8 show ?thesis
    by (intro conjI) assumption+
qed

theorem never_raise_witness:
  "convertible (Arr [Null, Bool True]) \<and> convertible Null \<and>
   ToString (Arr [Null, Bool True]) = Inr (js '',true'') \<and>
   formatCell sample_table (Arr [Null, Bool True]) Null = Inr (js '',true'') \<and>
   fmtPct sample_table (Arr [Null, Bool True]) Null = Inr (js '',true%'') \<and>
   truthy (Arr [Null, Bool True]) \<and>
   buildSearchKey sample_table (Arr [Null, Bool True]) =
     buildSearchKey sample_table (Str (js '',true'')) \<and>
   lower_key sample_table Null = Inr (js ''null'') \<and> no_naming_rule (js ''null'') \<and>
   formatCell sample_table (Num PosInf) Null = Inr (js ''Infinity'') \<and>
   \<not> truthy Undefined \<and> buildSearchKey sample_table Undefined = Inr [] \<and>
   \<not> convertible (Arr [Obj [(js ''toString'', Str [])]]) \<and>
   buildSearchKey sample_table (Arr [Obj [(js ''toString'', Str [])]]) = Inl TypeError \<and>
   formatCell sample_table (Num PosInf) (Arr [Obj [(js ''toString'', Str [])]]) = Inl TypeError"
proof -
  have n: "no_naming_rule (js ''null'')"
    by (simp add: no_naming_rule_def js_def)
  have l: "lower_key sample_table Null = Inr (js ''null'')"
    by (simp add: key_eval js_def)
  have t: "ToString (Arr [Null, Bool True]) = Inr (js '',true'')"
    by (simp add: js_def)
  have c: "\<not> convertible (Arr [Obj [(js ''toString'', Str [])]])"
    by simp
  show ?thesis
    using never_raise [of "Arr [Null, Bool True]" Null sample_table "js '',true''"
        "js ''null''" PosInf]
      never_raise [of Undefined Null sample_table]
      never_raise [of "Arr [Obj [(js ''toString'', Str [])]]"
        "Arr [Obj [(js ''toString'', Str [])]]" sample_table _ _ PosInf]
      n l t c
    by (simp add: fmtPct_def js_def)
qed

theorem never_raise_counterexample:
  "formatCell sample_table (Obj [(js ''toString'', Num (Fin 1))]) (Str (js ''runs''))
     = Inl TypeError \<and>
   fmt sample_table (Obj [(js ''toString'', Num (Fin 1))]) (Str (js ''runs'')) = Inl TypeError \<and>
   fmtPct sample_table (Obj [(js ''toString'', Num (Fin 1))]) (Str (js ''runs''))
     = Inl TypeError \<and>
   formatCell sample_table (Num (Fin 1)) (Obj [(js ''toString'', Num (Fin 1))]) = Inl TypeError \<and>
   normalizeText sample_table (Obj [(js ''toString'', Num (Fin 1))]) = Inl TypeError \<and>
   buildSearchKey sample_table (Obj [(js ''toString'', Num (Fin 1))]) = Inl TypeError \<and>
   buildSearchKey sample_table (Obj []) =
     Inr (js ''[object object] | object] [object | object] | [object | [objectobject]'') \<and>
   buildSearchKey sample_table (Obj []) \<noteq> Inr []"
proof -
  have a: "formatCell sample_table (Obj [(js ''toString'', Num (Fin 1))]) (Str (js ''runs''))
     = Inl TypeError"
    by (simp add: formatCell_def)
  have b: "formatCell sample_table (Num (Fin 1)) (Obj [(js ''toString'', Num (Fin 1))])
     = Inl TypeError"
    by (simp add: formatCell_def)
  have c: "normalizeText sample_table (Obj [(js ''toString'', Num (Fin 1))]) = Inl TypeError"
    by (simp add: normalizeText_def)
  have d: "buildSearchKey sample_table (Obj []) =
     Inr (js ''[object object] | object] [object | object] | [object | [objectobject]'')"
    by (simp add: str_eval)
  show ?thesis
    using a b c d by (simp add: fmt_def fmtPct_def buildSearchKey_def js_def)
qed

text \<open>
  Claim C10. The query \<open>"sharma | sharma"\<close> is not empty when normalized and selects the
  candidate \<open>"RG Sharma"\<close>, although none of the five strings that are joined to the
  key of \<open>"RG Sharma"\<close> contains it: the match runs across a delimiter of the key.
\<close>

theorem delimiter_match:
  "normalizeText tbl (Str (js ''sharma | sharma'')) = Inr (js ''sharma | sharma'') \<and>
   js ''sharma | sharma'' \<noteq> [] \<and>
   opts tbl (Some [Str (js ''RG Sharma'')]) (Str (js ''sharma | sharma'')) =
     Inr [\<lparr>name = Str (js ''RG Sharma''),
           key = js ''rg sharma | sharma rg | sharma | rg | rgsharma''\<rparr>] \<and>
   normalizeText tbl (Str (js ''RG Sharma'')) = Inr (js ''rg sharma'') \<and>
   forms (filter (\<lambda>p. p \<noteq> []) (split 0x20 (js ''rg sharma''))) =
     [js ''rg sharma'', js ''sharma rg'', js ''sharma'', js ''rg'', js ''rgsharma''] \<and>
   list_all (\<lambda>f. \<not> includes_str f (js ''sharma | sharma''))
     [js ''rg sharma'', js ''sharma rg'', js ''sharma'', js ''rg'', js ''rgsharma''] \<and>
   buildSearchKey tbl (Str (js ''RG Sharma'')) =
     Inr (js ''rg sharma | sharma rg | sharma | rg | rgsharma'') \<and>
   includes_str (js ''rg sharma | sharma rg | sharma | rg | rgsharma'') (js ''sharma | sharma'')"
  by (simp add: opts_def str_eval)

theorem delimiter_match_witness:
  "opts sample_table (Some [Str (js ''RG Sharma'')]) (Str (js ''sharma | sharma'')) =
     Inr [\<lparr>name = Str (js ''RG Sharma''),
           key = js ''rg sharma | sharma rg | sharma | rg | rgsharma''\<rparr>]"
  using delimiter_match [of sample_table] by simp

end
